theory Spec2Isabelle
  imports Main
begin

section \<open>The session table of the WebSockets broker\<close>

text \<open>
  The broker keeps one global array \<open>sessions\<close> (sessionManager.js) and three event
  handlers (server.js): \<open>ws.onmessage\<close> for SESSION and COMMAND messages and
  \<open>ws.onclose\<close>. The handlers run one at a time, so the model passes the array
  explicitly: every function takes the table and returns the new one.

  A WebSocket object is used by the session manager only through its field \<open>ID\<close>
  (given at accept time) and its method \<open>send\<close>. The model identifies a socket with
  that identity: \<open>ws\<close> is the connection identity, and a send is recorded as a pair
  of the receiving identity and the text. Two live sockets are taken to carry different
  IDs (server.js assigns \<open>Date.now()\<close> at accept time; the session manager compares
  sockets by ID only). A field that may hold \<open>null\<close> is an option. The client, target and
  key of a declaration are strings, compared with \<open>==\<close>; an absent or \<open>null\<close> field is
  \<open>None\<close>.
\<close>

type_synonym ws = nat

record session =
  ID :: nat
  clientID :: string
  targetID :: string
  clientKey :: "string option"
  targetKey :: "string option"
  clientWS :: "ws option"
  targetWS :: "ws option"

type_synonym sessions = "session list"

subsection \<open>sessionManager.js\<close>

text \<open>\<open>addSession\<close>: \<open>newSession.ID = clientWS.ID\<close>, then \<open>sessions.push\<close>. Both call
  sites pass the socket of the declaring connection as \<open>clientWS\<close>; the returned
  identifier is not used by any caller.\<close>

definition addSession ::
  "string \<Rightarrow> string \<Rightarrow> string option \<Rightarrow> string option \<Rightarrow> ws \<Rightarrow> ws option \<Rightarrow> sessions \<Rightarrow> sessions" where
  "addSession cid tid ck tk cws tws ss =
     ss @ [\<lparr>ID = cws, clientID = cid, targetID = tid, clientKey = ck, targetKey = tk,
            clientWS = Some cws, targetWS = tws\<rparr>]"

text \<open>\<open>updateSessionFromIndex\<close> overwrites the seven fields of \<open>sessions[i]\<close>. Its call
  sites pass an index found by the loop of \<open>updateSessionTable\<close>, which is in range
  (lemma \<open>locateRecords_in_range\<close> below).\<close>

definition updateSessionFromIndex ::
  "nat \<Rightarrow> nat \<Rightarrow> string \<Rightarrow> string \<Rightarrow> string option \<Rightarrow> string option \<Rightarrow> ws option \<Rightarrow> ws option
     \<Rightarrow> sessions \<Rightarrow> sessions" where
  "updateSessionFromIndex i sid cid tid ck tk cws tws ss =
     ss[i := \<lparr>ID = sid, clientID = cid, targetID = tid, clientKey = ck, targetKey = tk,
               clientWS = cws, targetWS = tws\<rparr>]"

text \<open>\<open>updateSessionClearTargetInfo\<close>: every record whose ID is the given one loses its
  target key and target socket.\<close>

definition clearTarget :: "session \<Rightarrow> session" where
  "clearTarget s = s\<lparr>targetKey := None, targetWS := None\<rparr>"

definition updateSessionClearTargetInfo :: "nat \<Rightarrow> sessions \<Rightarrow> sessions" where
  "updateSessionClearTargetInfo wid ss = map (\<lambda>s. if ID s = wid then clearTarget s else s) ss"

text \<open>\<open>Array.prototype.findIndex\<close>: the first index whose element satisfies the
  predicate, \<open>None\<close> for the result -1.\<close>

fun findIndex :: "('a \<Rightarrow> bool) \<Rightarrow> 'a list \<Rightarrow> nat option" where
  "findIndex P [] = None"
| "findIndex P (x # xs) = (if P x then Some 0 else map_option Suc (findIndex P xs))"

text \<open>\<open>sessions.splice(i, 1)\<close> removes the element at index \<open>i\<close>.\<close>

definition splice1 :: "nat \<Rightarrow> 'a list \<Rightarrow> 'a list" where
  "splice1 i xs = take i xs @ drop (Suc i) xs"

text \<open>\<open>updateSessionClearTargetInfoFromTargetID\<close> clears the first record whose target
  socket has the given ID and returns that record's client socket (\<open>null\<close> when there
  is no such record).\<close>

definition updateSessionClearTargetInfoFromTargetID :: "nat \<Rightarrow> sessions \<Rightarrow> ws option \<times> sessions" where
  "updateSessionClearTargetInfoFromTargetID wid ss =
     (case findIndex (\<lambda>s. targetWS s = Some wid) ss of
        None \<Rightarrow> (None, ss)
      | Some i \<Rightarrow> (clientWS (ss ! i), ss[i := clearTarget (ss ! i)]))"

definition deleteSessionFromID :: "nat \<Rightarrow> sessions \<Rightarrow> sessions" where
  "deleteSessionFromID wid ss =
     (case findIndex (\<lambda>s. ID s = wid) ss of None \<Rightarrow> ss | Some i \<Rightarrow> splice1 i ss)"

text \<open>\<open>getTargetWSFromSession\<close> returns a number (-1: no record of this socket, -2: the
  keys differ) or the \<open>targetWS\<close> field of the first record of the socket, which may be
  \<open>null\<close>.\<close>

datatype lookup = Number int | Socket "ws option"

fun getTargetWSFromSession :: "ws \<Rightarrow> sessions \<Rightarrow> lookup" where
  "getTargetWSFromSession w [] = Number (- 1)"
| "getTargetWSFromSession w (s # ss) =
     (if clientWS s = Some w
      then (if clientKey s = targetKey s then Socket (targetWS s) else Number (- 2))
      else getTargetWSFromSession w ss)"

text \<open>The loop of \<open>updateSessionTable\<close> (``locate client/target and target/client
  records''). \<open>markRecord\<close> is the if / else-if at the end of the loop body: it stores
  the index \<open>i\<close> as \<open>clientRecordIndex\<close> (first component) or \<open>targetRecordIndex\<close>
  (second component); \<open>None\<close> is the initial -1.\<close>

definition markRecord ::
  "string \<Rightarrow> string \<Rightarrow> nat \<Rightarrow> session \<Rightarrow> nat option \<times> nat option \<Rightarrow> nat option \<times> nat option" where
  "markRecord cid tid i s idx =
     (if clientID s = cid \<and> targetID s = tid then (Some i, snd idx)
      else if clientID s = tid \<and> targetID s = cid then (fst idx, Some i)
      else idx)"

text \<open>\<open>cleanupAt\<close> is the body of the identity-change branch: clear the partner of
  \<open>sessions[i]\<close> if it has one, then splice the record out.\<close>

definition cleanupAt :: "nat \<Rightarrow> sessions \<Rightarrow> sessions" where
  "cleanupAt i ss =
     splice1 i (case targetWS (ss ! i) of None \<Rightarrow> ss | Some p \<Rightarrow> updateSessionClearTargetInfo p ss)"

function locateRecords ::
  "ws \<Rightarrow> string \<Rightarrow> string \<Rightarrow> nat \<Rightarrow> sessions \<Rightarrow> nat option \<times> nat option
     \<Rightarrow> sessions \<times> nat option \<times> nat option" where
  "locateRecords w cid tid i ss idx =
     (if i < length ss then
        (if ID (ss ! i) = w \<and> (clientID (ss ! i) \<noteq> cid \<or> targetID (ss ! i) \<noteq> tid) then
           (if i \<ge> length (cleanupAt i ss) then (cleanupAt i ss, idx)
            else locateRecords w cid tid (Suc i) (cleanupAt i ss)
                   (markRecord cid tid i (cleanupAt i ss ! i) idx))
         else locateRecords w cid tid (Suc i) ss (markRecord cid tid i (ss ! i) idx))
      else (ss, idx))"
  by pat_completeness auto
termination
  by (relation "measure (\<lambda>(w, cid, tid, i, ss, idx). length ss - i)")
     (auto simp: cleanupAt_def splice1_def updateSessionClearTargetInfo_def split: option.split)

declare locateRecords.simps [simp del]

text \<open>The value \<open>updateSessionTable\<close> returns: the bare number -100 on invalid input,
  otherwise an object with the fields \<open>result\<close>, \<open>clientWS\<close> and \<open>targetWS\<close>.\<close>

datatype ret = Num int | Obj int ws "ws option"

definition updateSessionTable ::
  "ws \<Rightarrow> string option \<Rightarrow> string option \<Rightarrow> string option \<Rightarrow> sessions \<Rightarrow> ret \<times> sessions" where
  "updateSessionTable w client target key ss =
     (case (client, target, key) of
        (Some cid, Some tid, Some k) \<Rightarrow>
          (case locateRecords w cid tid 0 ss (None, None) of
             (ss1, None, None) \<Rightarrow>
               (Obj (- 1) w None, addSession cid tid (Some k) None w None ss1)
           | (ss1, Some c, None) \<Rightarrow>
               (Obj (- 1) w None,
                updateSessionFromIndex c w cid tid (Some k) None (Some w) None ss1)
           | (ss1, None, Some t) \<Rightarrow>
               (let ss2 = updateSessionFromIndex t (ID (ss1 ! t)) tid cid
                            (clientKey (ss1 ! t)) (Some k) (clientWS (ss1 ! t)) (Some w) ss1;
                    ss3 = addSession cid tid (Some k) (clientKey (ss2 ! t)) w
                            (clientWS (ss2 ! t)) ss2
                in (Obj (if Some k = clientKey (ss3 ! t) then 0 else - 2) w (clientWS (ss3 ! t)),
                    ss3))
           | (ss1, Some c, Some t) \<Rightarrow>
               (let ss2 = updateSessionFromIndex c w cid tid (Some k)
                            (clientKey (ss1 ! t)) (Some w) (clientWS (ss1 ! t)) ss1;
                    ss3 = updateSessionFromIndex t (ID (ss2 ! t)) tid cid
                            (clientKey (ss2 ! t)) (Some k) (clientWS (ss2 ! t)) (Some w) ss2
                in (Obj (if Some k = clientKey (ss3 ! t) then 0 else - 2) w (clientWS (ss3 ! t)),
                    ss3)))
      | _ \<Rightarrow> (Num (- 100), ss))"

subsection \<open>server.js\<close>

text \<open>Property access on the returned value: \<open>res.result\<close> and \<open>res.targetWS\<close> are
  \<open>undefined\<close> (here \<open>None\<close>) when \<open>res\<close> is a number.\<close>

fun result :: "ret \<Rightarrow> int option" where
  "result (Num n) = None"
| "result (Obj r c t) = Some r"

fun resTargetWS :: "ret \<Rightarrow> ws option" where
  "resTargetWS (Num n) = None"
| "resTargetWS (Obj r c t) = t"

text \<open>String concatenation \<open>"SESSION_NOT_UP: " + res.result\<close>: a number is written in
  decimal, \<open>undefined\<close> as the text \<open>undefined\<close>.\<close>

function showNat :: "nat \<Rightarrow> string" where
  "showNat n = (if n < 10 then [''0123456789'' ! n] else showNat (n div 10) @ [''0123456789'' ! (n mod 10)])"
  by pat_completeness auto
termination
  by (relation "measure id") auto

declare showNat.simps [simp del]

definition showInt :: "int \<Rightarrow> string" where
  "showInt i = (if i < 0 then CHR ''-'' # showNat (nat (- i)) else showNat (nat i))"

fun jsString :: "int option \<Rightarrow> string" where
  "jsString None = ''undefined''"
| "jsString (Some i) = showInt i"

text \<open>What a handler did: the table it leaves, the texts it sent (receiver and text, in
  order), and the exception it raised, if any. The only exception these handlers can
  raise is the TypeError of calling \<open>send\<close> on \<open>null\<close> or \<open>undefined\<close>.\<close>

datatype error = TypeError

record outcome =
  table :: sessions
  sent :: "(ws \<times> string) list"
  raised :: "error option"

text \<open>Inbound events, tagged with the connection they come from. The fields of a SESSION
  message are strings or absent; \<open>OTHER\<close> is a message that is not an object or has
  another type: the handler returns (or stops) before it touches the table or sends.\<close>

datatype event =
    SESSION ws "string option" "string option" "string option"
  | COMMAND ws string
  | CLOSE ws
  | OTHER ws

definition processCommand :: "ws \<Rightarrow> string \<Rightarrow> sessions \<Rightarrow> outcome" where
  "processCommand w command ss =
     (case getTargetWSFromSession w ss of
        Number n \<Rightarrow> \<lparr>table = ss, sent = [], raised = None\<rparr>
      | Socket None \<Rightarrow> \<lparr>table = ss, sent = [], raised = Some TypeError\<rparr>
      | Socket (Some t) \<Rightarrow> \<lparr>table = ss, sent = [(t, command)], raised = None\<rparr>)"

definition onSession ::
  "ws \<Rightarrow> string option \<Rightarrow> string option \<Rightarrow> string option \<Rightarrow> sessions \<Rightarrow> outcome" where
  "onSession w client target key ss =
     (case updateSessionTable w client target key ss of (res, ss') \<Rightarrow>
        if result res = Some 0 then
          (case resTargetWS res of
             Some t \<Rightarrow> \<lparr>table = ss', sent = [(w, ''SESSION_UP''), (t, ''SESSION_UP'')], raised = None\<rparr>
           | None \<Rightarrow> \<lparr>table = ss', sent = [(w, ''SESSION_UP'')], raised = Some TypeError\<rparr>)
        else if result res = Some (- 2) then
          (case resTargetWS res of
             Some t \<Rightarrow> \<lparr>table = ss',
                         sent = [(w, ''SESSION_NOT_UP: '' @ jsString (result res)),
                                 (t, ''SESSION_NOT_UP: -2'')],
                         raised = None\<rparr>
           | None \<Rightarrow> \<lparr>table = ss', sent = [(w, ''SESSION_NOT_UP: '' @ jsString (result res))],
                        raised = Some TypeError\<rparr>)
        else \<lparr>table = ss', sent = [(w, ''SESSION_NOT_UP: '' @ jsString (result res))],
               raised = None\<rparr>)"

definition onClose :: "ws \<Rightarrow> sessions \<Rightarrow> outcome" where
  "onClose w ss =
     (case updateSessionClearTargetInfoFromTargetID w ss of (partnerWS, ss') \<Rightarrow>
        \<lparr>table = deleteSessionFromID w ss',
         sent = (case partnerWS of None \<Rightarrow> [] | Some p \<Rightarrow> [(p, ''SESSION_NOT_UP: -1'')]),
         raised = None\<rparr>)"

fun handleEvent :: "event \<Rightarrow> sessions \<Rightarrow> outcome" where
  "handleEvent (SESSION w client target key) ss = onSession w client target key ss"
| "handleEvent (COMMAND w command) ss = processCommand w command ss"
| "handleEvent (CLOSE w) ss = onClose w ss"
| "handleEvent (OTHER w) ss = \<lparr>table = ss, sent = [], raised = None\<rparr>"

text \<open>The tables the broker can be in: it starts with the empty array, and every event
  leaves the table its handler produced.\<close>

inductive reachable :: "sessions \<Rightarrow> bool" where
  init: "reachable []"
| step: "reachable ss \<Longrightarrow> reachable (table (handleEvent e ss))"

text \<open>Running a list of events from a table, for concrete scenarios.\<close>

fun run :: "event list \<Rightarrow> sessions \<Rightarrow> sessions" where
  "run [] ss = ss"
| "run (e # es) ss = run es (table (handleEvent e ss))"

subsection \<open>Notions used to state and prove the properties\<close>

text \<open>The declared pair of a record; the test of the identity-change branch of the loop;
  the two tests of the if / else-if that marks a record as the forward (client/target) or
  the reverse (target/client) record of a declaration.\<close>

definition pairOf :: "session \<Rightarrow> string \<times> string" where
  "pairOf s = (clientID s, targetID s)"

definition changesIDs :: "ws \<Rightarrow> string \<Rightarrow> string \<Rightarrow> session \<Rightarrow> bool" where
  "changesIDs w cid tid s \<longleftrightarrow> ID s = w \<and> (clientID s \<noteq> cid \<or> targetID s \<noteq> tid)"

definition isForward :: "string \<Rightarrow> string \<Rightarrow> session \<Rightarrow> bool" where
  "isForward cid tid s \<longleftrightarrow> clientID s = cid \<and> targetID s = tid"

definition isReverse :: "string \<Rightarrow> string \<Rightarrow> session \<Rightarrow> bool" where
  "isReverse cid tid s \<longleftrightarrow> \<not> isForward cid tid s \<and> clientID s = tid \<and> targetID s = cid"

text \<open>\<open>marks\<close> is the loop on a table in which no record takes the identity-change
  branch; \<open>cleanup\<close> is that branch taken at the first record that changes IDs.\<close>

fun marks :: "string \<Rightarrow> string \<Rightarrow> nat \<Rightarrow> sessions \<Rightarrow> nat option \<times> nat option \<Rightarrow> nat option \<times> nat option" where
  "marks cid tid i [] idx = idx"
| "marks cid tid i (s # xs) idx = marks cid tid (Suc i) xs (markRecord cid tid i s idx)"

definition cleanup :: "ws \<Rightarrow> string \<Rightarrow> string \<Rightarrow> sessions \<Rightarrow> sessions" where
  "cleanup w cid tid ss =
     (case findIndex (changesIDs w cid tid) ss of None \<Rightarrow> ss | Some j \<Rightarrow> cleanupAt j ss)"

text \<open>The indices the loop has stored when it is at index \<open>n\<close>: both below \<open>n\<close>, and
  not the same index.\<close>

definition marked :: "nat \<Rightarrow> nat option \<times> nat option \<Rightarrow> bool" where
  "marked n idx \<longleftrightarrow>
     (\<forall>c. fst idx = Some c \<longrightarrow> c < n) \<and> (\<forall>t. snd idx = Some t \<longrightarrow> t < n) \<and>
     (\<forall>c. fst idx = Some c \<longrightarrow> snd idx \<noteq> Some c)"

text \<open>The record a relay looks up: the first one whose client socket is the sender.\<close>

definition recordOf :: "ws \<Rightarrow> sessions \<Rightarrow> session option" where
  "recordOf w ss = find (\<lambda>s. clientWS s = Some w) ss"

text \<open>The invariants of the table. A record is sound when its client socket is the
  connection whose ID it carries, it has a client key, and its target key and target
  socket are both present or both absent.\<close>

definition recordSound :: "session \<Rightarrow> bool" where
  "recordSound s \<longleftrightarrow>
     clientWS s = Some (ID s) \<and> clientKey s \<noteq> None \<and> (targetKey s = None \<longleftrightarrow> targetWS s = None)"

text \<open>A record with a target socket is linked: it names two different systems, and the
  table holds the record of the target connection, with the pair reversed and pointing
  back.\<close>

definition linked :: "sessions \<Rightarrow> session \<Rightarrow> bool" where
  "linked ss s \<longleftrightarrow>
     (case targetWS s of
        None \<Rightarrow> True
      | Some p \<Rightarrow> clientID s \<noteq> targetID s \<and>
          (\<exists>s'\<in>set ss. ID s' = p \<and> pairOf s' = (targetID s, clientID s) \<and> targetWS s' = Some (ID s)))"

text \<open>A well-formed table: one record per connection ID, one record per declared pair,
  every record sound and linked.\<close>

definition wellFormed :: "sessions \<Rightarrow> bool" where
  "wellFormed ss \<longleftrightarrow>
     distinct (map ID ss) \<and> distinct (map pairOf ss) \<and>
     (\<forall>s\<in>set ss. recordSound s) \<and> (\<forall>s\<in>set ss. linked ss s)"

text \<open>The records a declaration \<open>(cid, tid, k)\<close> of connection \<open>w\<close> writes: the record
  of \<open>w\<close> itself (given the reverse record, if any), and the reverse record \<open>r\<close> with
  its target side set to \<open>w\<close>; \<open>outcomeOf\<close> is the returned \<open>result\<close> when a reverse
  record exists.\<close>

definition declared :: "ws \<Rightarrow> string \<Rightarrow> string \<Rightarrow> string \<Rightarrow> session option \<Rightarrow> session" where
  "declared w cid tid k r =
     \<lparr>ID = w, clientID = cid, targetID = tid, clientKey = Some k,
      targetKey = (case r of None \<Rightarrow> None | Some r' \<Rightarrow> clientKey r'),
      clientWS = Some w,
      targetWS = (case r of None \<Rightarrow> None | Some r' \<Rightarrow> clientWS r')\<rparr>"

definition answered :: "ws \<Rightarrow> string \<Rightarrow> string \<Rightarrow> string \<Rightarrow> session \<Rightarrow> session" where
  "answered w cid tid k r =
     \<lparr>ID = ID r, clientID = tid, targetID = cid, clientKey = clientKey r,
      targetKey = Some k, clientWS = clientWS r, targetWS = Some w\<rparr>"

definition outcomeOf :: "string \<Rightarrow> session \<Rightarrow> int" where
  "outcomeOf k r = (if Some k = clientKey r then 0 else - 2)"

text \<open>The records a declaration \<open>(cid, tid)\<close> leaves alone, and a record with its link
  to connection \<open>d\<close> cleared (what a disconnect of \<open>d\<close> does to the partner).\<close>

definition bystanders :: "string \<Rightarrow> string \<Rightarrow> sessions \<Rightarrow> session set" where
  "bystanders cid tid ss = {s \<in> set ss. \<not> isForward cid tid s \<and> \<not> isReverse cid tid s}"

definition unlinkFrom :: "ws \<Rightarrow> session \<Rightarrow> session" where
  "unlinkFrom d s = (if targetWS s = Some d then clearTarget s else s)"

text \<open>The records of the scenarios in the properties: the record of connection \<open>A\<close>
  (system \<open>a\<close>, key \<open>k\<close>) linked to connection \<open>B\<close> (system \<open>b\<close>, key \<open>k'\<close>), the
  same record with no partner, and a confirmed pair: both records present, linked to each
  other, with one key. \<open>afterBoth\<close> is the outcome of the declaration \<open>(b, a, k2)\<close> of
  \<open>B\<close> made after the declaration \<open>(a, b, k1)\<close> of \<open>A\<close>.\<close>

definition linkRecord :: "ws \<Rightarrow> ws \<Rightarrow> string \<Rightarrow> string \<Rightarrow> string \<Rightarrow> string \<Rightarrow> session" where
  "linkRecord A B a b k k' =
     \<lparr>ID = A, clientID = a, targetID = b, clientKey = Some k, targetKey = Some k',
      clientWS = Some A, targetWS = Some B\<rparr>"

definition pendingRecord :: "ws \<Rightarrow> string \<Rightarrow> string \<Rightarrow> string \<Rightarrow> session" where
  "pendingRecord A a b k =
     \<lparr>ID = A, clientID = a, targetID = b, clientKey = Some k, targetKey = None,
      clientWS = Some A, targetWS = None\<rparr>"

definition confirmedPair :: "sessions \<Rightarrow> ws \<Rightarrow> ws \<Rightarrow> string \<Rightarrow> string \<Rightarrow> string \<Rightarrow> bool" where
  "confirmedPair ss A B a b k \<longleftrightarrow>
     linkRecord A B a b k k \<in> set ss \<and> linkRecord B A b a k k \<in> set ss"

definition afterBoth :: "ws \<Rightarrow> ws \<Rightarrow> string \<Rightarrow> string \<Rightarrow> string \<Rightarrow> string \<Rightarrow> sessions \<Rightarrow> outcome" where
  "afterBoth A B a b k1 k2 ss =
     handleEvent (SESSION B (Some b) (Some a) (Some k2))
       (table (handleEvent (SESSION A (Some a) (Some b) (Some k1)) ss))"

section \<open>Lists, \<open>findIndex\<close> and \<open>splice\<close>\<close>

lemma findIndex_None: "findIndex P xs = None \<longleftrightarrow> (\<forall>x\<in>set xs. \<not> P x)"
  by (induction xs) auto

lemma findIndex_Some:
  "findIndex P xs = Some i \<Longrightarrow> i < length xs \<and> P (xs ! i) \<and> (\<forall>j<i. \<not> P (xs ! j))"
proof (induction xs arbitrary: i)
  case Nil
  then show ?case by simp
next
  case (Cons x xs)
  show ?case
  proof (cases "P x")
    case True
    with Cons.prems show ?thesis by simp
  next
    case False
    with Cons.prems obtain k where k: "findIndex P xs = Some k" "i = Suc k"
      by auto
    from Cons.IH [OF k(1)] False k(2) show ?thesis
      by (auto simp: nth_Cons split: nat.split)
  qed
qed

lemma findIndex_unique:
  "i < length xs \<Longrightarrow> P (xs ! i) \<Longrightarrow> (\<forall>j<length xs. P (xs ! j) \<longrightarrow> j = i) \<Longrightarrow> findIndex P xs = Some i"
proof -
  assume a: "i < length xs" "P (xs ! i)" "\<forall>j<length xs. P (xs ! j) \<longrightarrow> j = i"
  from a(1,2) have "\<exists>x\<in>set xs. P x"
    using nth_mem by blast
  then have "findIndex P xs \<noteq> None"
    by (simp add: findIndex_None)
  then obtain k where k: "findIndex P xs = Some k" by blast
  from findIndex_Some [OF k] have "k < length xs" "P (xs ! k)" by simp_all
  with a(3) have "k = i" by blast
  with k show ?thesis by simp
qed

lemma length_updateSessionClearTargetInfo [simp]:
  "length (updateSessionClearTargetInfo p ss) = length ss"
  by (simp add: updateSessionClearTargetInfo_def)

lemma length_splice1: "i < length xs \<Longrightarrow> length (splice1 i xs) = length xs - 1"
  by (simp add: splice1_def)

lemma nth_splice1: "j < length xs - 1 \<Longrightarrow> splice1 i xs ! j = (if j < i then xs ! j else xs ! Suc j)"
  by (auto simp: splice1_def nth_append min_def)

lemma set_splice1: "set (splice1 i xs) \<subseteq> set xs"
  by (auto simp: splice1_def dest: in_set_takeD in_set_dropD)

lemma length_cleanupAt: "i < length ss \<Longrightarrow> length (cleanupAt i ss) = length ss - 1"
  by (simp add: cleanupAt_def length_splice1 split: option.split)

lemma markRecord_clearTarget [simp]: "markRecord cid tid i (clearTarget s) idx = markRecord cid tid i s idx"
  by (simp add: markRecord_def clearTarget_def)

lemma locateRecords_marks:
  "(\<forall>j. i \<le> j \<and> j < length ss \<longrightarrow> \<not> changesIDs w cid tid (ss ! j)) \<Longrightarrow>
   locateRecords w cid tid i ss idx = (ss, marks cid tid i (drop i ss) idx)"
proof (induction w cid tid i ss idx rule: locateRecords.induct)
  case (1 w cid tid i ss idx)
  show ?case
  proof (cases "i < length ss")
    case False
    then show ?thesis by (simp add: locateRecords.simps)
  next
    case True
    from "1.prems" True have ns: "\<not> (ID (ss ! i) = w \<and> (clientID (ss ! i) \<noteq> cid \<or> targetID (ss ! i) \<noteq> tid))"
      by (auto simp: changesIDs_def)
    have "locateRecords w cid tid i ss idx = locateRecords w cid tid (Suc i) ss (markRecord cid tid i (ss ! i) idx)"
      using True ns by (subst locateRecords.simps) auto
    also have "\<dots> = (ss, marks cid tid (Suc i) (drop (Suc i) ss) (markRecord cid tid i (ss ! i) idx))"
      using "1.IH"(2) [OF True ns] "1.prems" by auto
    also have "drop i ss = ss ! i # drop (Suc i) ss"
      using True by (simp add: Cons_nth_drop_Suc)
    ultimately show ?thesis by simp
  qed
qed


lemma markRecord_pairOf:
  "pairOf s = pairOf s' \<Longrightarrow> markRecord cid tid i s idx = markRecord cid tid i s' idx"
  by (simp add: markRecord_def pairOf_def)

lemma map_ID_clear [simp]: "map ID (updateSessionClearTargetInfo p ss) = map ID ss"
  by (simp add: updateSessionClearTargetInfo_def clearTarget_def)

lemma map_pairOf_clear [simp]: "map pairOf (updateSessionClearTargetInfo p ss) = map pairOf ss"
  by (simp add: updateSessionClearTargetInfo_def clearTarget_def pairOf_def)

lemma map_splice1: "map f (splice1 i xs) = splice1 i (map f xs)"
  by (simp add: splice1_def take_map drop_map)

lemma map_ID_cleanupAt: "map ID (cleanupAt j ss) = splice1 j (map ID ss)"
  by (simp add: cleanupAt_def map_splice1 split: option.split)

lemma map_pairOf_cleanupAt: "map pairOf (cleanupAt j ss) = splice1 j (map pairOf ss)"
  by (simp add: cleanupAt_def map_splice1 split: option.split)

lemma distinct_splice1: "distinct xs \<Longrightarrow> distinct (splice1 i xs)"
proof (cases "i < length xs")
  case True
  assume d: "distinct xs"
  from True have "xs = take i xs @ xs ! i # drop (Suc i) xs"
    by (rule id_take_nth_drop)
  with d have "distinct (take i xs @ xs ! i # drop (Suc i) xs)" by simp
  then show ?thesis by (simp add: splice1_def)
next
  case False
  assume "distinct xs"
  with False show ?thesis by (simp add: splice1_def)
qed

lemma ID_cleanupAt_nth:
  assumes "k < length ss - 1" "j < length ss"
  shows "ID (cleanupAt j ss ! k) = (if k < j then ID (ss ! k) else ID (ss ! Suc k))"
proof -
  have "ID (cleanupAt j ss ! k) = map ID (cleanupAt j ss) ! k"
    using assms by (simp add: length_cleanupAt)
  also have "\<dots> = splice1 j (map ID ss) ! k"
    by (simp add: map_ID_cleanupAt)
  also have "\<dots> = (if k < j then ID (ss ! k) else ID (ss ! Suc k))"
    using assms by (simp add: nth_splice1)
  finally show ?thesis .
qed

lemma pairOf_cleanupAt_nth:
  assumes "k < length ss - 1" "j < length ss"
  shows "pairOf (cleanupAt j ss ! k) = (if k < j then pairOf (ss ! k) else pairOf (ss ! Suc k))"
proof -
  have "pairOf (cleanupAt j ss ! k) = map pairOf (cleanupAt j ss) ! k"
    using assms by (simp add: length_cleanupAt)
  also have "\<dots> = splice1 j (map pairOf ss) ! k"
    by (simp add: map_pairOf_cleanupAt)
  also have "\<dots> = (if k < j then pairOf (ss ! k) else pairOf (ss ! Suc k))"
    using assms by (simp add: nth_splice1)
  finally show ?thesis .
qed

lemma distinct_map_nth:
  assumes "distinct (map f xs)" "i < length xs" "j < length xs" "f (xs ! i) = f (xs ! j)"
  shows "i = j"
proof -
  have "map f xs ! i = map f xs ! j" using assms by simp
  moreover have "i < length (map f xs)" "j < length (map f xs)" using assms by simp_all
  ultimately show ?thesis using assms(1) nth_eq_iff_index_eq by blast
qed

lemma findIndex_drop_step:
  "i < length ss \<Longrightarrow> \<not> P (ss ! i) \<Longrightarrow>
   findIndex P (drop i ss) = map_option Suc (findIndex P (drop (Suc i) ss))"
  by (simp flip: Cons_nth_drop_Suc)

lemma findIndex_drop_hit:
  "i < length ss \<Longrightarrow> P (ss ! i) \<Longrightarrow> findIndex P (drop i ss) = Some 0"
  by (simp flip: Cons_nth_drop_Suc)

lemma locateRecords_cleanup:
  "distinct (map ID ss) \<Longrightarrow>
   locateRecords w cid tid i ss idx =
     (case findIndex (changesIDs w cid tid) (drop i ss) of
        None \<Rightarrow> (ss, marks cid tid i (drop i ss) idx)
      | Some d \<Rightarrow> (cleanupAt (i + d) ss, marks cid tid i (drop i (cleanupAt (i + d) ss)) idx))"
proof (induction w cid tid i ss idx rule: locateRecords.induct)
  case (1 w cid tid i ss idx)
  show ?case
  proof (cases "i < length ss")
    case False
    then show ?thesis by (simp add: locateRecords.simps)
  next
    case True
    show ?thesis
    proof (cases "changesIDs w cid tid (ss ! i)")
      case st: True
      then have c: "ID (ss ! i) = w \<and> (clientID (ss ! i) \<noteq> cid \<or> targetID (ss ! i) \<noteq> tid)"
        by (simp add: changesIDs_def)
      let ?ss2 = "cleanupAt i ss"
      have len: "length ?ss2 = length ss - 1" using True by (simp add: length_cleanupAt)
      have hit: "findIndex (changesIDs w cid tid) (drop i ss) = Some 0"
        using True st by (rule findIndex_drop_hit)
      show ?thesis
      proof (cases "i \<ge> length ?ss2")
        case True
        then have "locateRecords w cid tid i ss idx = (?ss2, idx)"
          using \<open>i < length ss\<close> c by (subst locateRecords.simps) simp
        with True hit show ?thesis by simp
      next
        case False
        have nost: "\<forall>j. Suc i \<le> j \<and> j < length ?ss2 \<longrightarrow> \<not> changesIDs w cid tid (?ss2 ! j)"
        proof (intro allI impI)
          fix j assume j: "Suc i \<le> j \<and> j < length ?ss2"
          then have "ID (?ss2 ! j) = ID (ss ! Suc j)"
            using len True by (simp add: ID_cleanupAt_nth)
          moreover have "ID (ss ! Suc j) \<noteq> ID (ss ! i)"
          proof
            assume e: "ID (ss ! Suc j) = ID (ss ! i)"
            have "Suc j < length ss" "i < length ss" using j len True by auto
            from distinct_map_nth [OF "1.prems" this e] j show False by simp
          qed
          ultimately show "\<not> changesIDs w cid tid (?ss2 ! j)"
            using c by (simp add: changesIDs_def)
        qed
        have "locateRecords w cid tid i ss idx =
              locateRecords w cid tid (Suc i) ?ss2 (markRecord cid tid i (?ss2 ! i) idx)"
          using \<open>i < length ss\<close> c False by (subst locateRecords.simps) simp
        also have "\<dots> = (?ss2, marks cid tid (Suc i) (drop (Suc i) ?ss2) (markRecord cid tid i (?ss2 ! i) idx))"
          using nost by (rule locateRecords_marks)
        also have "drop i ?ss2 = ?ss2 ! i # drop (Suc i) ?ss2"
          using False by (simp add: Cons_nth_drop_Suc)
        ultimately show ?thesis using hit by simp
      qed
    next
      case nst: False
      then have c: "\<not> (ID (ss ! i) = w \<and> (clientID (ss ! i) \<noteq> cid \<or> targetID (ss ! i) \<noteq> tid))"
        by (simp add: changesIDs_def)
      have step: "findIndex (changesIDs w cid tid) (drop i ss) =
                  map_option Suc (findIndex (changesIDs w cid tid) (drop (Suc i) ss))"
        using True nst by (rule findIndex_drop_step)
      have unfold: "locateRecords w cid tid i ss idx =
            locateRecords w cid tid (Suc i) ss (markRecord cid tid i (ss ! i) idx)"
        using True c by (subst locateRecords.simps) auto
      have IH: "locateRecords w cid tid (Suc i) ss (markRecord cid tid i (ss ! i) idx) =
         (case findIndex (changesIDs w cid tid) (drop (Suc i) ss) of
            None \<Rightarrow> (ss, marks cid tid (Suc i) (drop (Suc i) ss) (markRecord cid tid i (ss ! i) idx))
          | Some d \<Rightarrow> (cleanupAt (Suc i + d) ss,
               marks cid tid (Suc i) (drop (Suc i) (cleanupAt (Suc i + d) ss)) (markRecord cid tid i (ss ! i) idx)))"
        using "1.IH"(2) [OF True c "1.prems"] .
      show ?thesis
      proof (cases "findIndex (changesIDs w cid tid) (drop (Suc i) ss)")
        case None
        have "drop i ss = ss ! i # drop (Suc i) ss"
          using True by (simp add: Cons_nth_drop_Suc)
        then show ?thesis using None step unfold IH by simp
      next
        case (Some d)
        let ?ss2 = "cleanupAt (Suc i + d) ss"
        from findIndex_Some [OF Some] have d: "Suc i + d < length ss" by auto
        then have len: "length ?ss2 = length ss - 1" by (simp add: length_cleanupAt)
        have "pairOf (?ss2 ! i) = pairOf (ss ! i)"
          using d by (simp add: pairOf_cleanupAt_nth)
        then have mr: "markRecord cid tid i (?ss2 ! i) idx = markRecord cid tid i (ss ! i) idx"
          by (rule markRecord_pairOf)
        have "drop i ?ss2 = ?ss2 ! i # drop (Suc i) ?ss2"
          using d len by (simp add: Cons_nth_drop_Suc)
        then show ?thesis using Some step unfold IH mr by simp
      qed
    qed
  qed
qed


lemma isReverse_not_isForward: "isReverse cid tid s \<Longrightarrow> \<not> isForward cid tid s"
  by (simp add: isReverse_def)

lemma markRecord_cases:
  "markRecord cid tid i s idx =
     (if isForward cid tid s then (Some i, snd idx)
      else if isReverse cid tid s then (fst idx, Some i) else idx)"
  by (simp add: markRecord_def isForward_def isReverse_def)

lemma isForward_pairOf: "isForward cid tid s \<longleftrightarrow> pairOf s = (cid, tid)"
  by (auto simp: isForward_def pairOf_def)

lemma isReverse_pairOf: "isReverse cid tid s \<longleftrightarrow> pairOf s = (tid, cid) \<and> cid \<noteq> tid"
  by (auto simp: isReverse_def isForward_def pairOf_def)

lemma marks_findIndex:
  "distinct (map pairOf xs) \<Longrightarrow>
   marks cid tid i xs (ci, ti) =
     (case findIndex (isForward cid tid) xs of None \<Rightarrow> ci | Some d \<Rightarrow> Some (i + d),
      case findIndex (isReverse cid tid) xs of None \<Rightarrow> ti | Some d \<Rightarrow> Some (i + d))"
proof (induction xs arbitrary: i ci ti)
  case Nil
  then show ?case by simp
next
  case (Cons x xs)
  from Cons.prems have dx: "distinct (map pairOf xs)" and nx: "pairOf x \<notin> pairOf ` set xs"
    by simp_all
  note IH = Cons.IH [OF dx]
  show ?case
  proof (cases "isForward cid tid x")
    case True
    then have "\<forall>y\<in>set xs. \<not> isForward cid tid y"
      using nx by (auto simp: isForward_pairOf image_iff)
    then have nf: "findIndex (isForward cid tid) xs = None"
      by (simp add: findIndex_None)
    from True have nr: "\<not> isReverse cid tid x" by (auto simp: isReverse_def)
    show ?thesis
      using True nr nf IH [of "Suc i" "Some i" ti]
      by (simp add: markRecord_cases split: option.split)
  next
    case False
    show ?thesis
    proof (cases "isReverse cid tid x")
      case True
      then have "\<forall>y\<in>set xs. \<not> isReverse cid tid y"
        using nx by (auto simp: isReverse_pairOf image_iff)
      then have nf: "findIndex (isReverse cid tid) xs = None"
        by (simp add: findIndex_None)
      show ?thesis
        using True False nf IH [of "Suc i" ci "Some i"]
        by (simp add: markRecord_cases split: option.split)
    next
      case nr: False
      show ?thesis
        using False nr IH [of "Suc i" ci ti]
        by (simp add: markRecord_cases split: option.split)
    qed
  qed
qed

lemma distinct_pairOf_cleanupAt:
  "distinct (map pairOf ss) \<Longrightarrow> distinct (map pairOf (cleanupAt j ss))"
  by (simp add: map_pairOf_cleanupAt distinct_splice1)

lemma distinct_ID_cleanupAt:
  "distinct (map ID ss) \<Longrightarrow> distinct (map ID (cleanupAt j ss))"
  by (simp add: map_ID_cleanupAt distinct_splice1)

lemma distinct_pairOf_cleanup:
  "distinct (map pairOf ss) \<Longrightarrow> distinct (map pairOf (cleanup w cid tid ss))"
  by (simp add: cleanup_def distinct_pairOf_cleanupAt split: option.split)

lemma distinct_ID_cleanup:
  "distinct (map ID ss) \<Longrightarrow> distinct (map ID (cleanup w cid tid ss))"
  by (simp add: cleanup_def distinct_ID_cleanupAt split: option.split)

lemma locateRecords_wf:
  assumes "distinct (map ID ss)" "distinct (map pairOf ss)"
  shows "locateRecords w cid tid 0 ss (None, None) =
           (cleanup w cid tid ss,
            findIndex (isForward cid tid) (cleanup w cid tid ss),
            findIndex (isReverse cid tid) (cleanup w cid tid ss))"
proof -
  have d: "distinct (map pairOf (cleanup w cid tid ss))"
    using assms(2) by (rule distinct_pairOf_cleanup)
  have "locateRecords w cid tid 0 ss (None, None) =
          (cleanup w cid tid ss, marks cid tid 0 (cleanup w cid tid ss) (None, None))"
    using locateRecords_cleanup [OF assms(1), of w cid tid 0 "(None, None)"]
    by (simp add: cleanup_def split: option.split)
  also have "marks cid tid 0 (cleanup w cid tid ss) (None, None) =
          (findIndex (isForward cid tid) (cleanup w cid tid ss),
           findIndex (isReverse cid tid) (cleanup w cid tid ss))"
    using marks_findIndex [OF d, of cid tid 0 None None]
    by (simp split: option.split)
  finally show ?thesis .
qed

text \<open>On every table the two indices the loop returns are in range of the table it
  returns, and differ: \<open>updateSessionTable\<close> never reads or writes outside the array.\<close>

lemma marked_markRecord:
  assumes "marked i idx"
  shows "marked (Suc i) (markRecord cid tid i s idx)"
proof -
  obtain ci ti where idx: "idx = (ci, ti)" by (cases idx)
  from assms have c: "\<And>c. ci = Some c \<Longrightarrow> c < i" and t: "\<And>t. ti = Some t \<Longrightarrow> t < i"
    and d: "\<And>c. ci = Some c \<Longrightarrow> ti \<noteq> Some c"
    by (simp_all add: marked_def idx)
  have 1: "marked (Suc i) (Some i, ti)"
    using t by (fastforce simp: marked_def)
  have 2: "marked (Suc i) (ci, Some i)"
    using c by (fastforce simp: marked_def)
  have 3: "marked (Suc i) (ci, ti)"
    using c t d by (fastforce simp: marked_def)
  from 1 2 3 show ?thesis by (simp add: markRecord_def idx)
qed

lemma marked_mono: "marked i idx \<Longrightarrow> i \<le> n \<Longrightarrow> marked n idx"
  by (auto simp: marked_def)

lemma locateRecords_valid:
  "marked i idx \<Longrightarrow> i \<le> length ss \<Longrightarrow>
   marked (length (fst (locateRecords w cid tid i ss idx))) (snd (locateRecords w cid tid i ss idx))"
proof (induction w cid tid i ss idx rule: locateRecords.induct)
  case (1 w cid tid i ss idx)
  show ?case
  proof (cases "i < length ss")
    case False
    with "1.prems" have "i = length ss" by simp
    with "1.prems"(1) show ?thesis by (simp add: locateRecords.simps)
  next
    case True
    show ?thesis
    proof (cases "ID (ss ! i) = w \<and> (clientID (ss ! i) \<noteq> cid \<or> targetID (ss ! i) \<noteq> tid)")
      case c: True
      have len: "length (cleanupAt i ss) = length ss - 1" using True by (simp add: length_cleanupAt)
      show ?thesis
      proof (cases "i \<ge> length (cleanupAt i ss)")
        case True
        with len \<open>i < length ss\<close> have "i = length (cleanupAt i ss)" by simp
        moreover have "locateRecords w cid tid i ss idx = (cleanupAt i ss, idx)"
          using \<open>i < length ss\<close> c True by (subst locateRecords.simps) simp
        ultimately show ?thesis using "1.prems"(1) by simp
      next
        case False
        have e: "locateRecords w cid tid i ss idx =
              locateRecords w cid tid (Suc i) (cleanupAt i ss)
                (markRecord cid tid i (cleanupAt i ss ! i) idx)"
          using \<open>i < length ss\<close> c False by (subst locateRecords.simps) simp
        have "marked (Suc i) (markRecord cid tid i (cleanupAt i ss ! i) idx)"
          using "1.prems"(1) by (rule marked_markRecord)
        moreover have "Suc i \<le> length (cleanupAt i ss)" using False by simp
        ultimately show ?thesis
          unfolding e using "1.IH"(1) [OF True c False] by blast
      qed
    next
      case c: False
      have e: "locateRecords w cid tid i ss idx =
            locateRecords w cid tid (Suc i) ss (markRecord cid tid i (ss ! i) idx)"
        using True c by (subst locateRecords.simps) auto
      have "marked (Suc i) (markRecord cid tid i (ss ! i) idx)"
        using "1.prems"(1) by (rule marked_markRecord)
      moreover have "Suc i \<le> length ss" using True by simp
      ultimately show ?thesis
        unfolding e using "1.IH"(2) [OF True c] by blast
    qed
  qed
qed

lemma locateRecords_in_range:
  assumes "locateRecords w cid tid 0 ss (None, None) = (ss', ci, ti)"
  shows "(\<forall>c. ci = Some c \<longrightarrow> c < length ss') \<and> (\<forall>t. ti = Some t \<longrightarrow> t < length ss') \<and>
         (\<forall>c. ci = Some c \<longrightarrow> ti \<noteq> Some c)"
proof -
  have "marked 0 (None, None)" by (simp add: marked_def)
  from locateRecords_valid [OF this, of ss w cid tid] assms show ?thesis
    by (simp add: marked_def)
qed

section \<open>Well-formed tables\<close>

lemma distinct_of_map: "distinct (map f xs) \<Longrightarrow> distinct xs"
  by (simp add: distinct_map)

lemma set_splice1_distinct:
  "distinct xs \<Longrightarrow> i < length xs \<Longrightarrow> set (splice1 i xs) = set xs - {xs ! i}"
proof -
  assume d: "distinct xs" and i: "i < length xs"
  from i have e: "xs = take i xs @ xs ! i # drop (Suc i) xs"
    by (rule id_take_nth_drop)
  from d e have dd: "distinct (take i xs @ xs ! i # drop (Suc i) xs)" by simp
  have "set xs = set (take i xs @ xs ! i # drop (Suc i) xs)" using e by simp
  then have "set xs = set (take i xs) \<union> {xs ! i} \<union> set (drop (Suc i) xs)" by auto
  moreover from dd have "xs ! i \<notin> set (take i xs)" "xs ! i \<notin> set (drop (Suc i) xs)" by auto
  ultimately show ?thesis by (auto simp: splice1_def)
qed

lemma in_set_update_other: "x \<in> set xs \<Longrightarrow> x \<noteq> xs ! i \<Longrightarrow> x \<in> set (xs[i := y])"
  by (metis in_set_conv_nth length_list_update nth_list_update_neq)

lemma wellFormed_distinct: "wellFormed ss \<Longrightarrow> distinct ss"
  by (auto simp: wellFormed_def dest: distinct_of_map)

lemma wellFormed_ID_eq:
  "wellFormed ss \<Longrightarrow> s \<in> set ss \<Longrightarrow> s' \<in> set ss \<Longrightarrow> ID s = ID s' \<Longrightarrow> s = s'"
  by (auto simp: wellFormed_def distinct_map dest: inj_onD)

lemma wellFormed_pair_eq:
  "wellFormed ss \<Longrightarrow> s \<in> set ss \<Longrightarrow> s' \<in> set ss \<Longrightarrow> pairOf s = pairOf s' \<Longrightarrow> s = s'"
  by (auto simp: wellFormed_def distinct_map dest: inj_onD)

lemma findIndex_the:
  assumes "s \<in> set xs" "P s" "\<And>x. x \<in> set xs \<Longrightarrow> P x \<Longrightarrow> x = s"
  shows "\<exists>c<length xs. findIndex P xs = Some c \<and> xs ! c = s"
proof -
  from assms(1,2) have "findIndex P xs \<noteq> None" by (auto simp: findIndex_None)
  then obtain c where c: "findIndex P xs = Some c" by blast
  from findIndex_Some [OF c] have "c < length xs" "P (xs ! c)" by simp_all
  with assms(3) c show ?thesis by auto
qed

text \<open>The records of the table after the identity-change branch.\<close>

lemma set_cleanupAt:
  assumes "distinct (map ID ss)" "j < length ss"
  shows "set (cleanupAt j ss) =
           (\<lambda>s. if targetWS (ss ! j) = Some (ID s) then clearTarget s else s) ` (set ss - {ss ! j})"
proof (cases "targetWS (ss ! j)")
  case None
  from assms(1) have "distinct ss" by (rule distinct_of_map)
  with None assms(2) show ?thesis
    by (simp add: cleanupAt_def set_splice1_distinct)
next
  case (Some p)
  let ?c = "\<lambda>s. if ID s = p then clearTarget s else s"
  have ID: "\<And>s. ID (?c s) = ID s" by (simp add: clearTarget_def)
  have cs: "updateSessionClearTargetInfo p ss = map ?c ss"
    by (simp add: updateSessionClearTargetInfo_def)
  have d: "distinct (map ?c ss)"
  proof -
    have "distinct (map ID (updateSessionClearTargetInfo p ss))"
      using assms(1) by simp
    then show ?thesis unfolding cs by (rule distinct_of_map)
  qed
  have inj: "inj_on ?c (set ss)"
    using d by (simp add: distinct_map)
  have "set (cleanupAt j ss) = set (map ?c ss) - {map ?c ss ! j}"
    using Some assms(2) d
    by (simp add: cleanupAt_def updateSessionClearTargetInfo_def set_splice1_distinct)
  also have "\<dots> = ?c ` set ss - {?c (ss ! j)}" using assms(2) by simp
  also have "\<dots> = ?c ` (set ss - {ss ! j})"
    using inj_on_image_set_diff [OF inj, of "set ss" "{ss ! j}"] assms(2) by simp
  finally show ?thesis using Some by (auto cong: image_cong)
qed

lemma linkedD:
  "linked ss s \<Longrightarrow> targetWS s = Some p \<Longrightarrow>
   clientID s \<noteq> targetID s \<and>
   (\<exists>s'\<in>set ss. ID s' = p \<and> pairOf s' = (targetID s, clientID s) \<and> targetWS s' = Some (ID s))"
  by (simp add: linked_def)

lemma linkedI:
  "(\<And>p. targetWS s = Some p \<Longrightarrow>
      clientID s \<noteq> targetID s \<and>
      (\<exists>s'\<in>set ss. ID s' = p \<and> pairOf s' = (targetID s, clientID s) \<and> targetWS s' = Some (ID s)))
   \<Longrightarrow> linked ss s"
  by (simp add: linked_def split: option.split)

lemma linked_unlinked: "targetWS s = None \<Longrightarrow> linked ss s"
  by (simp add: linked_def)

lemma recordSound_clearTarget: "recordSound s \<Longrightarrow> recordSound (clearTarget s)"
  by (simp add: recordSound_def clearTarget_def)

lemma targetWS_clearTarget [simp]: "targetWS (clearTarget s) = None"
  by (simp add: clearTarget_def)

lemma ID_clearTarget [simp]: "ID (clearTarget s) = ID s"
  by (simp add: clearTarget_def)

lemma pairOf_clearTarget [simp]: "pairOf (clearTarget s) = pairOf s"
  by (simp add: clearTarget_def pairOf_def)

lemma wellFormed_cleanupAt:
  assumes wf: "wellFormed ss" and j: "j < length ss"
  shows "wellFormed (cleanupAt j ss)"
proof -
  let ?st = "ss ! j"
  let ?clr = "\<lambda>s. if targetWS ?st = Some (ID s) then clearTarget s else s"
  from wf have d1: "distinct (map ID ss)" and d2: "distinct (map pairOf ss)"
    and snd: "\<forall>s\<in>set ss. recordSound s" and lnk: "\<forall>s\<in>set ss. linked ss s"
    by (simp_all add: wellFormed_def)
  have set1: "set (cleanupAt j ss) = ?clr ` (set ss - {?st})"
    using d1 j by (rule set_cleanupAt)
  have st: "?st \<in> set ss" using j by simp
  have "\<forall>s1\<in>set (cleanupAt j ss). recordSound s1"
    using snd by (auto simp: set1 recordSound_clearTarget)
  moreover have "\<forall>s1\<in>set (cleanupAt j ss). linked (cleanupAt j ss) s1"
  proof
    fix s1 assume "s1 \<in> set (cleanupAt j ss)"
    then have "s1 \<in> ?clr ` (set ss - {?st})" unfolding set1 .
    then obtain s where s: "s \<in> set ss" "s \<noteq> ?st" "s1 = ?clr s"
      by blast
    show "linked (cleanupAt j ss) s1"
    proof (rule linkedI)
      fix p assume p: "targetWS s1 = Some p"
      with s(3) have nc: "targetWS ?st \<noteq> Some (ID s)" and e: "s1 = s"
        by (auto split: if_splits)
      from lnk s(1) have "linked ss s" by blast
      from linkedD [OF this] p e obtain s' where s': "clientID s \<noteq> targetID s"
        "s' \<in> set ss" "ID s' = p" "pairOf s' = (targetID s, clientID s)" "targetWS s' = Some (ID s)"
        by auto
      from s'(5) nc have ne: "s' \<noteq> ?st" by auto
      have "targetWS ?st \<noteq> Some (ID s')"
      proof
        assume a: "targetWS ?st = Some (ID s')"
        from lnk st have "linked ss ?st" by blast
        from linkedD [OF this a] obtain s'' where s'': "s'' \<in> set ss" "ID s'' = ID s'"
          "targetWS s'' = Some (ID ?st)" by auto
        from wellFormed_ID_eq [OF wf s''(1) s'(2) s''(2)] have "s'' = s'" .
        with s''(3) s'(5) have "ID ?st = ID s" by simp
        from wellFormed_ID_eq [OF wf st s(1) this] s(2) show False by simp
      qed
      then have c: "?clr s' = s'" by simp
      from s'(2) ne have "s' \<in> set ss - {?st}" by simp
      then have "?clr s' \<in> ?clr ` (set ss - {?st})" by (rule imageI)
      then have "?clr s' \<in> set (cleanupAt j ss)" unfolding set1 .
      then have "s' \<in> set (cleanupAt j ss)" unfolding c .
      with s' e show "clientID s1 \<noteq> targetID s1 \<and>
        (\<exists>s'\<in>set (cleanupAt j ss). ID s' = p \<and> pairOf s' = (targetID s1, clientID s1) \<and>
           targetWS s' = Some (ID s1))"
        by blast
    qed
  qed
  ultimately show ?thesis
    using d1 d2 by (simp add: wellFormed_def distinct_ID_cleanupAt distinct_pairOf_cleanupAt)
qed

lemma wellFormed_cleanup: "wellFormed ss \<Longrightarrow> wellFormed (cleanup w cid tid ss)"
  by (auto simp: cleanup_def wellFormed_cleanupAt split: option.split dest: findIndex_Some)

lemma cleanup_owner_forward:
  assumes wf: "wellFormed ss" and s: "s \<in> set (cleanup w cid tid ss)" "ID s = w"
  shows "isForward cid tid s"
proof (cases "findIndex (changesIDs w cid tid) ss")
  case None
  with s have "s \<in> set ss" by (simp add: cleanup_def)
  with None have "\<not> changesIDs w cid tid s" by (simp add: findIndex_None)
  with s(2) show ?thesis by (auto simp: changesIDs_def isForward_def)
next
  case (Some j)
  from findIndex_Some [OF Some] have j: "j < length ss" "changesIDs w cid tid (ss ! j)" by simp_all
  from wf have d1: "distinct (map ID ss)" by (simp add: wellFormed_def)
  from s(1) Some have "s \<in> set (cleanupAt j ss)" by (simp add: cleanup_def)
  then have "s \<in> (\<lambda>s. if targetWS (ss ! j) = Some (ID s) then clearTarget s else s) ` (set ss - {ss ! j})"
    unfolding set_cleanupAt [OF d1 j(1)] .
  then obtain s0 where s0': "s0 \<in> set ss" "s0 \<noteq> ss ! j"
     "s = (if targetWS (ss ! j) = Some (ID s0) then clearTarget s0 else s0)"
    by blast
  then have s0: "s0 \<in> set ss" "s0 \<noteq> ss ! j" "ID s = ID s0"
    by (simp_all split: if_splits)
  from j(2) s(2) s0(3) have "ID s0 = ID (ss ! j)" by (simp add: changesIDs_def)
  from wellFormed_ID_eq [OF wf s0(1) _ this] j(1) s0(2) show ?thesis by simp
qed

lemma forward_reverse_index_neq:
  assumes "findIndex (isForward cid tid) xs = Some c" "findIndex (isReverse cid tid) xs = Some t"
  shows "c \<noteq> t"
proof
  assume "c = t"
  with findIndex_Some [OF assms(1)] findIndex_Some [OF assms(2)]
  show False by (simp add: isReverse_def)
qed

lemma updateSessionTable_wf:
  assumes wf: "wellFormed ss"
  shows "updateSessionTable w (Some cid) (Some tid) (Some k) ss =
     (case (findIndex (isForward cid tid) (cleanup w cid tid ss),
            findIndex (isReverse cid tid) (cleanup w cid tid ss)) of
        (None, None) \<Rightarrow>
          (Obj (- 1) w None, cleanup w cid tid ss @ [declared w cid tid k None])
      | (Some c, None) \<Rightarrow>
          (Obj (- 1) w None, (cleanup w cid tid ss)[c := declared w cid tid k None])
      | (None, Some t) \<Rightarrow>
          (Obj (outcomeOf k (cleanup w cid tid ss ! t)) w (clientWS (cleanup w cid tid ss ! t)),
           (cleanup w cid tid ss)[t := answered w cid tid k (cleanup w cid tid ss ! t)]
             @ [declared w cid tid k (Some (cleanup w cid tid ss ! t))])
      | (Some c, Some t) \<Rightarrow>
          (Obj (outcomeOf k (cleanup w cid tid ss ! t)) w (clientWS (cleanup w cid tid ss ! t)),
           (cleanup w cid tid ss)[c := declared w cid tid k (Some (cleanup w cid tid ss ! t)),
                                  t := answered w cid tid k (cleanup w cid tid ss ! t)]))"
proof -
  let ?ss1 = "cleanup w cid tid ss"
  from wf have d: "distinct (map ID ss)" "distinct (map pairOf ss)"
    by (simp_all add: wellFormed_def)
  note loc = locateRecords_wf [OF d, of w cid tid]
  show ?thesis
  proof (cases "findIndex (isForward cid tid) ?ss1")
    case None
    note f = None
    show ?thesis
    proof (cases "findIndex (isReverse cid tid) ?ss1")
      case None
      with f show ?thesis
        by (simp add: updateSessionTable_def loc declared_def addSession_def)
    next
      case (Some t)
      from findIndex_Some [OF Some] have t: "t < length ?ss1" by simp
      with f Some show ?thesis
        by (simp add: updateSessionTable_def loc declared_def answered_def outcomeOf_def
              addSession_def updateSessionFromIndex_def nth_append)
    qed
  next
    case (Some c)
    note f = Some
    from findIndex_Some [OF Some] have c: "c < length ?ss1" by simp
    show ?thesis
    proof (cases "findIndex (isReverse cid tid) ?ss1")
      case None
      with f show ?thesis
        by (simp add: updateSessionTable_def loc declared_def updateSessionFromIndex_def)
    next
      case (Some t)
      from findIndex_Some [OF Some] have t: "t < length ?ss1" by simp
      from forward_reverse_index_neq [OF f Some] have "c \<noteq> t" .
      with f Some t c show ?thesis
        by (simp add: updateSessionTable_def loc declared_def answered_def outcomeOf_def
              updateSessionFromIndex_def)
    qed
  qed
qed

lemma bystanders_linked:
  assumes wf: "wellFormed ss" and s: "s \<in> bystanders cid tid ss" and p: "targetWS s = Some p"
  shows "clientID s \<noteq> targetID s \<and>
         (\<exists>s'\<in>bystanders cid tid ss. ID s' = p \<and> pairOf s' = (targetID s, clientID s) \<and>
            targetWS s' = Some (ID s))"
proof -
  from s have sin: "s \<in> set ss" and nf: "\<not> isForward cid tid s" and nr: "\<not> isReverse cid tid s"
    by (simp_all add: bystanders_def)
  from wf sin have "linked ss s" by (simp add: wellFormed_def)
  from linkedD [OF this p] obtain s' where ne: "clientID s \<noteq> targetID s" and
    s': "s' \<in> set ss" "ID s' = p" "pairOf s' = (targetID s, clientID s)" "targetWS s' = Some (ID s)"
    by blast
  have "\<not> isForward cid tid s'"
  proof
    assume "isForward cid tid s'"
    with s'(3) have "targetID s = cid" "clientID s = tid" by (simp_all add: isForward_pairOf)
    with ne have "isReverse cid tid s" by (auto simp: isReverse_def isForward_def)
    with nr show False ..
  qed
  moreover have "\<not> isReverse cid tid s'"
  proof
    assume "isReverse cid tid s'"
    with s'(3) have "targetID s = tid" "clientID s = cid" by (simp_all add: isReverse_pairOf)
    then have "isForward cid tid s" by (simp add: isForward_def)
    with nf show False ..
  qed
  ultimately have "s' \<in> bystanders cid tid ss" using s'(1) by (simp add: bystanders_def)
  with ne s' show ?thesis by blast
qed

lemma recordSound_declared_None: "recordSound (declared w cid tid k None)"
  by (simp add: recordSound_def declared_def)

lemma recordSound_declared_Some: "recordSound r \<Longrightarrow> recordSound (declared w cid tid k (Some r))"
  by (simp add: recordSound_def declared_def)

lemma recordSound_answered: "recordSound r \<Longrightarrow> recordSound (answered w cid tid k r)"
  by (simp add: recordSound_def answered_def)

lemma wellFormed_declare_alone:
  assumes wf: "wellFormed ss1"
    and d1: "distinct (map ID ss')" and d2: "distinct (map pairOf ss')"
    and set': "set ss' = insert (declared w cid tid k None) (bystanders cid tid ss1)"
  shows "wellFormed ss'"
proof -
  have sound: "\<forall>s\<in>set ss'. recordSound s"
    using wf by (auto simp: set' recordSound_declared_None bystanders_def wellFormed_def)
  have "\<forall>s\<in>set ss'. linked ss' s"
  proof
    fix s assume "s \<in> set ss'"
    then consider "s = declared w cid tid k None" | "s \<in> bystanders cid tid ss1"
      by (auto simp: set')
    then show "linked ss' s"
    proof cases
      case 1
      then show ?thesis by (simp add: linked_unlinked declared_def)
    next
      case 2
      show ?thesis
      proof (rule linkedI)
        fix p assume "targetWS s = Some p"
        from bystanders_linked [OF wf 2 this]
        show "clientID s \<noteq> targetID s \<and>
          (\<exists>s'\<in>set ss'. ID s' = p \<and> pairOf s' = (targetID s, clientID s) \<and> targetWS s' = Some (ID s))"
          unfolding set' by blast
      qed
    qed
  qed
  with sound d1 d2 show ?thesis by (simp add: wellFormed_def)
qed

lemma wellFormed_declare_paired:
  assumes wf: "wellFormed ss1"
    and r: "r \<in> set ss1" "isReverse cid tid r"
    and d1: "distinct (map ID ss')" and d2: "distinct (map pairOf ss')"
    and set': "set ss' = insert (declared w cid tid k (Some r))
                 (insert (answered w cid tid k r) (bystanders cid tid ss1))"
  shows "wellFormed ss'"
proof -
  from wf r(1) have rs: "recordSound r" by (simp add: wellFormed_def)
  from r(2) have ne: "cid \<noteq> tid" by (simp add: isReverse_pairOf)
  have sound: "\<forall>s\<in>set ss'. recordSound s"
    using wf rs
    by (auto simp: set' recordSound_declared_Some recordSound_answered bystanders_def wellFormed_def)
  have "\<forall>s\<in>set ss'. linked ss' s"
  proof
    fix s assume "s \<in> set ss'"
    then consider "s = declared w cid tid k (Some r)" | "s = answered w cid tid k r"
      | "s \<in> bystanders cid tid ss1"
      by (auto simp: set')
    then show "linked ss' s"
    proof cases
      case 1
      have "answered w cid tid k r \<in> set ss'" by (simp add: set')
      moreover have "ID (answered w cid tid k r) = ID r"
        "pairOf (answered w cid tid k r) = (tid, cid)"
        "targetWS (answered w cid tid k r) = Some w"
        by (simp_all add: answered_def pairOf_def)
      ultimately show ?thesis
        using 1 rs ne by (auto simp: linked_def declared_def recordSound_def)
    next
      case 2
      have "declared w cid tid k (Some r) \<in> set ss'" by (simp add: set')
      moreover have "ID (declared w cid tid k (Some r)) = w"
        "pairOf (declared w cid tid k (Some r)) = (cid, tid)"
        "targetWS (declared w cid tid k (Some r)) = Some (ID r)"
        using rs by (simp_all add: declared_def pairOf_def recordSound_def)
      ultimately show ?thesis
        using 2 ne by (auto simp: linked_def answered_def)
    next
      case 3
      show ?thesis
      proof (rule linkedI)
        fix p assume "targetWS s = Some p"
        from bystanders_linked [OF wf 3 this]
        show "clientID s \<noteq> targetID s \<and>
          (\<exists>s'\<in>set ss'. ID s' = p \<and> pairOf s' = (targetID s, clientID s) \<and> targetWS s' = Some (ID s))"
          unfolding set' by blast
      qed
    qed
  qed
  with sound d1 d2 show ?thesis by (simp add: wellFormed_def)
qed

lemma forward_unique:
  "wellFormed ss \<Longrightarrow> s \<in> set ss \<Longrightarrow> s' \<in> set ss \<Longrightarrow>
   isForward cid tid s \<Longrightarrow> isForward cid tid s' \<Longrightarrow> s = s'"
  by (rule wellFormed_pair_eq) (simp_all add: isForward_pairOf)

lemma reverse_unique:
  "wellFormed ss \<Longrightarrow> s \<in> set ss \<Longrightarrow> s' \<in> set ss \<Longrightarrow>
   isReverse cid tid s \<Longrightarrow> isReverse cid tid s' \<Longrightarrow> s = s'"
  by (rule wellFormed_pair_eq) (simp_all add: isReverse_pairOf)

lemma bystanders_none:
  assumes "findIndex (isForward cid tid) ss = None" "findIndex (isReverse cid tid) ss = None"
  shows "bystanders cid tid ss = set ss"
  using assms by (auto simp: bystanders_def findIndex_None)

lemma bystanders_forward:
  assumes wf: "wellFormed ss"
    and f: "findIndex (isForward cid tid) ss = Some c"
    and r: "findIndex (isReverse cid tid) ss = None"
  shows "bystanders cid tid ss = set ss - {ss ! c}"
proof -
  from findIndex_Some [OF f] have c: "c < length ss" "isForward cid tid (ss ! c)" by simp_all
  then have cin: "ss ! c \<in> set ss" by simp
  show ?thesis
  proof (intro set_eqI iffI)
    fix s assume "s \<in> bystanders cid tid ss"
    with c(2) show "s \<in> set ss - {ss ! c}" by (auto simp: bystanders_def)
  next
    fix s assume a: "s \<in> set ss - {ss ! c}"
    then have "\<not> isForward cid tid s"
      using forward_unique [OF wf _ cin _ c(2), of s] by auto
    moreover from a r have "\<not> isReverse cid tid s" by (auto simp: findIndex_None)
    ultimately show "s \<in> bystanders cid tid ss" using a by (simp add: bystanders_def)
  qed
qed

lemma bystanders_reverse:
  assumes wf: "wellFormed ss"
    and f: "findIndex (isForward cid tid) ss = None"
    and r: "findIndex (isReverse cid tid) ss = Some t"
  shows "bystanders cid tid ss = set ss - {ss ! t}"
proof -
  from findIndex_Some [OF r] have t: "t < length ss" "isReverse cid tid (ss ! t)" by simp_all
  then have tin: "ss ! t \<in> set ss" by simp
  show ?thesis
  proof (intro set_eqI iffI)
    fix s assume "s \<in> bystanders cid tid ss"
    with t(2) show "s \<in> set ss - {ss ! t}" by (auto simp: bystanders_def)
  next
    fix s assume a: "s \<in> set ss - {ss ! t}"
    then have "\<not> isReverse cid tid s"
      using reverse_unique [OF wf _ tin _ t(2), of s] by auto
    moreover from a f have "\<not> isForward cid tid s" by (auto simp: findIndex_None)
    ultimately show "s \<in> bystanders cid tid ss" using a by (simp add: bystanders_def)
  qed
qed

lemma bystanders_both:
  assumes wf: "wellFormed ss"
    and f: "findIndex (isForward cid tid) ss = Some c"
    and r: "findIndex (isReverse cid tid) ss = Some t"
  shows "bystanders cid tid ss = set ss - {ss ! c} - {ss ! t}"
proof -
  from findIndex_Some [OF f] have c: "c < length ss" "isForward cid tid (ss ! c)" by simp_all
  then have cin: "ss ! c \<in> set ss" by simp
  from findIndex_Some [OF r] have t: "t < length ss" "isReverse cid tid (ss ! t)" by simp_all
  then have tin: "ss ! t \<in> set ss" by simp
  show ?thesis
  proof (intro set_eqI iffI)
    fix s assume "s \<in> bystanders cid tid ss"
    with t(2) c(2) show "s \<in> set ss - {ss ! c} - {ss ! t}" by (auto simp: bystanders_def)
  next
    fix s assume a: "s \<in> set ss - {ss ! c} - {ss ! t}"
    then have "\<not> isReverse cid tid s"
      using reverse_unique [OF wf _ tin _ t(2), of s] by auto
    moreover from a have "\<not> isForward cid tid s"
      using forward_unique [OF wf _ cin _ c(2), of s] by auto
    ultimately show "s \<in> bystanders cid tid ss" using a by (simp add: bystanders_def)
  qed
qed

lemma ID_declared [simp]: "ID (declared w cid tid k r) = w"
  by (simp add: declared_def)

lemma pairOf_declared [simp]: "pairOf (declared w cid tid k r) = (cid, tid)"
  by (simp add: declared_def pairOf_def)

lemma ID_answered [simp]: "ID (answered w cid tid k r) = ID r"
  by (simp add: answered_def)

lemma pairOf_answered [simp]: "pairOf (answered w cid tid k r) = (tid, cid)"
  by (simp add: answered_def pairOf_def)

text \<open>After the loop a table is ready for the declaration of \<open>w\<close>: it is well formed and
  every record of \<open>w\<close> in it carries the declared pair.\<close>

lemma set_case_new:
  assumes f: "findIndex (isForward cid tid) ss1 = None"
    and r: "findIndex (isReverse cid tid) ss1 = None"
  shows "set (ss1 @ [declared w cid tid k None]) =
         insert (declared w cid tid k None) (bystanders cid tid ss1)"
  by (simp add: bystanders_none [OF f r])

lemma set_case_forward:
  assumes wf: "wellFormed ss1"
    and f: "findIndex (isForward cid tid) ss1 = Some c"
    and r: "findIndex (isReverse cid tid) ss1 = None"
  shows "set (ss1[c := declared w cid tid k None]) =
         insert (declared w cid tid k None) (bystanders cid tid ss1)"
proof -
  from findIndex_Some [OF f] have c: "c < length ss1" by simp
  show ?thesis
    using wellFormed_distinct [OF wf] c
    by (simp add: bystanders_forward [OF wf f r] set_update_distinct)
qed

lemma set_case_reverse:
  assumes wf: "wellFormed ss1"
    and f: "findIndex (isForward cid tid) ss1 = None"
    and r: "findIndex (isReverse cid tid) ss1 = Some t"
  shows "set (ss1[t := answered w cid tid k (ss1 ! t)] @ [declared w cid tid k (Some (ss1 ! t))]) =
      insert (declared w cid tid k (Some (ss1 ! t)))
        (insert (answered w cid tid k (ss1 ! t)) (bystanders cid tid ss1))"
proof -
  from findIndex_Some [OF r] have t: "t < length ss1" by simp
  show ?thesis
    using wellFormed_distinct [OF wf] t
    by (simp add: bystanders_reverse [OF wf f r] set_update_distinct)
qed

lemma wellFormed_case_new:
  assumes wf: "wellFormed ss1"
    and own: "\<And>s. s \<in> set ss1 \<Longrightarrow> ID s = w \<Longrightarrow> isForward cid tid s"
    and f: "findIndex (isForward cid tid) ss1 = None"
    and r: "findIndex (isReverse cid tid) ss1 = None"
  shows "wellFormed (ss1 @ [declared w cid tid k None])"
proof (rule wellFormed_declare_alone [OF wf])
  from f have nf: "\<forall>s\<in>set ss1. \<not> isForward cid tid s" by (simp add: findIndex_None)
  with own have "w \<notin> ID ` set ss1" by auto
  with wf show "distinct (map ID (ss1 @ [declared w cid tid k None]))"
    by (simp add: wellFormed_def)
  from nf have "(cid, tid) \<notin> pairOf ` set ss1" by (auto simp: isForward_pairOf)
  with wf show "distinct (map pairOf (ss1 @ [declared w cid tid k None]))"
    by (simp add: wellFormed_def)
  show "set (ss1 @ [declared w cid tid k None]) =
        insert (declared w cid tid k None) (bystanders cid tid ss1)"
    using f r by (rule set_case_new)
qed

lemma distinct_ID_takeover:
  assumes wf: "wellFormed ss1"
    and own: "\<And>s. s \<in> set ss1 \<Longrightarrow> ID s = w \<Longrightarrow> isForward cid tid s"
    and f: "findIndex (isForward cid tid) ss1 = Some c"
  shows "distinct (map ID (ss1[c := declared w cid tid k r]))"
proof -
  from findIndex_Some [OF f] have c: "c < length ss1" "isForward cid tid (ss1 ! c)" by simp_all
  then have cin: "ss1 ! c \<in> set ss1" by simp
  from wf have d: "distinct (map ID ss1)" by (simp add: wellFormed_def)
  have "w \<notin> set (map ID ss1) - {map ID ss1 ! c}"
  proof
    assume "w \<in> set (map ID ss1) - {map ID ss1 ! c}"
    then obtain s where s: "s \<in> set ss1" "ID s = w" "w \<noteq> ID (ss1 ! c)"
      using c(1) by auto
    from own [OF s(1,2)] have "isForward cid tid s" .
    from forward_unique [OF wf s(1) cin this c(2)] s(2,3) show False by simp
  qed
  with d have "distinct ((map ID ss1)[c := w])" by (rule distinct_list_update)
  then show ?thesis by (simp add: map_update)
qed

lemma pairOf_takeover:
  assumes f: "findIndex (isForward cid tid) ss1 = Some c"
  shows "map pairOf (ss1[c := declared w cid tid k r]) = map pairOf ss1"
proof -
  from findIndex_Some [OF f] have c: "c < length ss1" "pairOf (ss1 ! c) = (cid, tid)"
    by (simp_all add: isForward_pairOf)
  have "map pairOf (ss1[c := declared w cid tid k r]) = (map pairOf ss1)[c := map pairOf ss1 ! c]"
    using c by (simp add: map_update)
  then show ?thesis by simp
qed

lemma wellFormed_case_forward:
  assumes wf: "wellFormed ss1"
    and own: "\<And>s. s \<in> set ss1 \<Longrightarrow> ID s = w \<Longrightarrow> isForward cid tid s"
    and f: "findIndex (isForward cid tid) ss1 = Some c"
    and r: "findIndex (isReverse cid tid) ss1 = None"
  shows "wellFormed (ss1[c := declared w cid tid k None])"
proof (rule wellFormed_declare_alone [OF wf])
  from findIndex_Some [OF f] have c: "c < length ss1" by simp
  show "distinct (map ID (ss1[c := declared w cid tid k None]))"
    using wf own f by (rule distinct_ID_takeover)
  show "distinct (map pairOf (ss1[c := declared w cid tid k None]))"
    using wf by (simp add: pairOf_takeover [OF f] wellFormed_def)
  show "set (ss1[c := declared w cid tid k None]) =
        insert (declared w cid tid k None) (bystanders cid tid ss1)"
    using wf f r by (rule set_case_forward)
qed

lemma map_update_same:
  assumes "i < length xs" "f y = f (xs ! i)"
  shows "map f (xs[i := y]) = map f xs"
proof -
  have "map f (xs[i := y]) = (map f xs)[i := f y]" by (rule map_update)
  also have "f y = map f xs ! i" using assms by simp
  also have "(map f xs)[i := map f xs ! i] = map f xs" by (rule list_update_id)
  finally show ?thesis .
qed

lemma map_answered:
  assumes r: "findIndex (isReverse cid tid) xs = Some t"
  shows "map ID (xs[t := answered w cid tid k (xs ! t)]) = map ID xs"
    and "map pairOf (xs[t := answered w cid tid k (xs ! t)]) = map pairOf xs"
proof -
  from findIndex_Some [OF r] have t: "t < length xs" "pairOf (xs ! t) = (tid, cid)"
    by (simp_all add: isReverse_pairOf)
  have "map ID (xs[t := answered w cid tid k (xs ! t)]) = (map ID xs)[t := map ID xs ! t]"
    using t by (simp add: map_update)
  then show "map ID (xs[t := answered w cid tid k (xs ! t)]) = map ID xs" by simp
  have "map pairOf (xs[t := answered w cid tid k (xs ! t)]) = (map pairOf xs)[t := map pairOf xs ! t]"
    using t by (simp add: map_update)
  then show "map pairOf (xs[t := answered w cid tid k (xs ! t)]) = map pairOf xs" by simp
qed

lemma wellFormed_case_reverse:
  assumes wf: "wellFormed ss1"
    and own: "\<And>s. s \<in> set ss1 \<Longrightarrow> ID s = w \<Longrightarrow> isForward cid tid s"
    and f: "findIndex (isForward cid tid) ss1 = None"
    and r: "findIndex (isReverse cid tid) ss1 = Some t"
  shows "wellFormed (ss1[t := answered w cid tid k (ss1 ! t)] @ [declared w cid tid k (Some (ss1 ! t))])"
proof -
  from findIndex_Some [OF r] have t: "t < length ss1" "isReverse cid tid (ss1 ! t)" by simp_all
  then have tin: "ss1 ! t \<in> set ss1" by simp
  from f have nf: "\<forall>s\<in>set ss1. \<not> isForward cid tid s" by (simp add: findIndex_None)
  show ?thesis
  proof (rule wellFormed_declare_paired [OF wf tin t(2)])
    from nf own have "w \<notin> ID ` set ss1" by auto
    then have "w \<notin> set (map ID ss1)" by simp
    with wf show "distinct (map ID (ss1[t := answered w cid tid k (ss1 ! t)] @
        [declared w cid tid k (Some (ss1 ! t))]))"
      by (simp add: map_answered [OF r] wellFormed_def del: set_map)
    from nf have "(cid, tid) \<notin> pairOf ` set ss1" by (auto simp: isForward_pairOf)
    then have "(cid, tid) \<notin> set (map pairOf ss1)" by simp
    with wf show "distinct (map pairOf (ss1[t := answered w cid tid k (ss1 ! t)] @
        [declared w cid tid k (Some (ss1 ! t))]))"
      by (simp add: map_answered [OF r] wellFormed_def del: set_map)
    show "set (ss1[t := answered w cid tid k (ss1 ! t)] @ [declared w cid tid k (Some (ss1 ! t))]) =
      insert (declared w cid tid k (Some (ss1 ! t)))
        (insert (answered w cid tid k (ss1 ! t)) (bystanders cid tid ss1))"
      using wf f r by (rule set_case_reverse)
  qed
qed

lemma facts_case_both:
  assumes wf: "wellFormed ss1"
    and own: "\<And>s. s \<in> set ss1 \<Longrightarrow> ID s = w \<Longrightarrow> isForward cid tid s"
    and f: "findIndex (isForward cid tid) ss1 = Some c"
    and r: "findIndex (isReverse cid tid) ss1 = Some t"
  shows "distinct (map ID (ss1[c := declared w cid tid k (Some (ss1 ! t)),
                                t := answered w cid tid k (ss1 ! t)]))"
    and "distinct (map pairOf (ss1[c := declared w cid tid k (Some (ss1 ! t)),
                                t := answered w cid tid k (ss1 ! t)]))"
    and "set (ss1[c := declared w cid tid k (Some (ss1 ! t)),
                  t := answered w cid tid k (ss1 ! t)]) =
         insert (declared w cid tid k (Some (ss1 ! t)))
           (insert (answered w cid tid k (ss1 ! t)) (bystanders cid tid ss1))"
proof -
  let ?d = "declared w cid tid k (Some (ss1 ! t))"
  let ?a = "answered w cid tid k (ss1 ! t)"
  let ?ss2 = "ss1[c := ?d]"
  from findIndex_Some [OF f] have c: "c < length ss1" "isForward cid tid (ss1 ! c)" by simp_all
  from findIndex_Some [OF r] have t: "t < length ss1" "isReverse cid tid (ss1 ! t)" by simp_all
  then have tin: "ss1 ! t \<in> set ss1" by simp
  from forward_reverse_index_neq [OF f r] have ct: "c \<noteq> t" .
  then have t2: "?ss2 ! t = ss1 ! t" by simp
  have d2: "distinct (map ID ?ss2)" using wf own f by (rule distinct_ID_takeover)
  have p2: "map pairOf ?ss2 = map pairOf ss1" by (rule pairOf_takeover [OF f])
  have t2': "t < length ?ss2" using t(1) by simp
  have mID: "map ID (?ss2[t := ?a]) = map ID ?ss2"
    using t2' by (rule map_update_same) (simp only: t2 ID_answered)
  have mP: "map pairOf (?ss2[t := ?a]) = map pairOf ss1"
  proof -
    from t(2) have "pairOf ?a = pairOf (?ss2 ! t)"
      by (simp only: t2 pairOf_answered isReverse_pairOf)
    with t2' have "map pairOf (?ss2[t := ?a]) = map pairOf ?ss2" by (rule map_update_same)
    then show ?thesis using p2 by simp
  qed
  have "ID (ss1 ! t) \<noteq> w"
  proof
    assume "ID (ss1 ! t) = w"
    from own [OF tin this] t(2) show False by (simp add: isReverse_def)
  qed
  then have dr: "?d \<noteq> ss1 ! t" using ID_declared [of w cid tid k "Some (ss1 ! t)"] by metis
  show "distinct (map ID (?ss2[t := ?a]))" using d2 by (simp only: mID)
  show "distinct (map pairOf (?ss2[t := ?a]))" using wf by (simp only: mP wellFormed_def)
  have "set (?ss2[t := ?a]) = insert ?a (set ?ss2 - {?ss2 ! t})"
    using distinct_of_map [OF d2] t(1) by (simp add: set_update_distinct)
  also have "set ?ss2 = insert ?d (set ss1 - {ss1 ! c})"
    using wellFormed_distinct [OF wf] c(1) by (simp add: set_update_distinct)
  finally show "set (?ss2[t := ?a]) = insert ?d (insert ?a (bystanders cid tid ss1))"
    using dr t2 by (auto simp: bystanders_both [OF wf f r])
qed

lemma wellFormed_case_both:
  assumes wf: "wellFormed ss1"
    and own: "\<And>s. s \<in> set ss1 \<Longrightarrow> ID s = w \<Longrightarrow> isForward cid tid s"
    and f: "findIndex (isForward cid tid) ss1 = Some c"
    and r: "findIndex (isReverse cid tid) ss1 = Some t"
  shows "wellFormed (ss1[c := declared w cid tid k (Some (ss1 ! t)),
                         t := answered w cid tid k (ss1 ! t)])"
proof -
  from findIndex_Some [OF r] have t: "t < length ss1" "isReverse cid tid (ss1 ! t)" by simp_all
  then have tin: "ss1 ! t \<in> set ss1" by simp
  show ?thesis
    using wf tin t(2) facts_case_both [OF wf own f r]
    by (rule wellFormed_declare_paired)
qed

lemma wellFormed_updateSessionTable:
  assumes wf: "wellFormed ss"
  shows "wellFormed (snd (updateSessionTable w client target key ss))"
proof (cases "client = None \<or> target = None \<or> key = None")
  case True
  with wf show ?thesis
    by (auto simp: updateSessionTable_def split: option.split)
next
  case False
  then obtain cid tid k where e: "client = Some cid" "target = Some tid" "key = Some k"
    by auto
  let ?ss1 = "cleanup w cid tid ss"
  have wf1: "wellFormed ?ss1" using wf by (rule wellFormed_cleanup)
  have own: "\<And>s. s \<in> set ?ss1 \<Longrightarrow> ID s = w \<Longrightarrow> isForward cid tid s"
    using wf by (rule cleanup_owner_forward)
  show ?thesis
    unfolding e updateSessionTable_wf [OF wf]
    using wellFormed_case_new [OF wf1 own] wellFormed_case_forward [OF wf1 own]
      wellFormed_case_reverse [OF wf1 own] wellFormed_case_both [OF wf1 own]
    by (simp split: option.split)
qed

lemma pointer_unique:
  assumes wf: "wellFormed ss" and s: "s \<in> set ss" "targetWS s = Some d"
    and x: "x \<in> set ss" "targetWS x = Some d"
  shows "s = x"
proof -
  from wf s(1) x(1) have "linked ss s" "linked ss x" by (simp_all add: wellFormed_def)
  from linkedD [OF this(1) s(2)] obtain s' where
    s': "s' \<in> set ss" "ID s' = d" "pairOf s' = (targetID s, clientID s)" by blast
  from linkedD [OF \<open>linked ss x\<close> x(2)] obtain x' where
    x': "x' \<in> set ss" "ID x' = d" "pairOf x' = (targetID x, clientID x)" by blast
  from wellFormed_ID_eq [OF wf s'(1) x'(1)] s'(2) x'(2) have "s' = x'" by simp
  with s'(3) x'(3) have "pairOf s = pairOf x" by (simp add: pairOf_def)
  from wellFormed_pair_eq [OF wf s(1) x(1) this] show ?thesis .
qed

lemma pointer_not_self:
  assumes wf: "wellFormed ss" and x: "x \<in> set ss" "targetWS x = Some d"
  shows "ID x \<noteq> d"
proof
  assume e: "ID x = d"
  from wf x(1) have "linked ss x" by (simp add: wellFormed_def)
  from linkedD [OF this x(2)] obtain x' where ne: "clientID x \<noteq> targetID x" and
    x': "x' \<in> set ss" "ID x' = d" "pairOf x' = (targetID x, clientID x)" by blast
  from wellFormed_ID_eq [OF wf x'(1) x(1)] x'(2) e have "x' = x" by simp
  with x'(3) ne show False by (simp add: pairOf_def)
qed

lemma set_deleteSessionFromID:
  assumes d: "distinct (map ID ss)"
  shows "set (deleteSessionFromID w ss) = {s \<in> set ss. ID s \<noteq> w}"
proof (cases "findIndex (\<lambda>s. ID s = w) ss")
  case None
  then have "\<forall>s\<in>set ss. ID s \<noteq> w" by (simp add: findIndex_None)
  with None show ?thesis by (auto simp: deleteSessionFromID_def)
next
  case (Some i)
  from findIndex_Some [OF Some] have i: "i < length ss" "ID (ss ! i) = w" by simp_all
  have "set (splice1 i ss) = set ss - {ss ! i}"
    using distinct_of_map [OF d] i(1) by (rule set_splice1_distinct)
  moreover have "set ss - {ss ! i} = {s \<in> set ss. ID s \<noteq> w}"
  proof (intro set_eqI iffI)
    fix s assume a: "s \<in> set ss - {ss ! i}"
    then obtain j where j: "j < length ss" "s = ss ! j" by (auto simp: in_set_conv_nth)
    have "ID s \<noteq> w"
    proof
      assume "ID s = w"
      with j i have "ID (ss ! j) = ID (ss ! i)" by simp
      from distinct_map_nth [OF d j(1) i(1) this] j a show False by simp
    qed
    with a show "s \<in> {s \<in> set ss. ID s \<noteq> w}" by simp
  next
    fix s assume "s \<in> {s \<in> set ss. ID s \<noteq> w}"
    with i(2) show "s \<in> set ss - {ss ! i}" by auto
  qed
  ultimately show ?thesis using Some by (simp add: deleteSessionFromID_def)
qed

lemma map_deleteSessionFromID:
  "map f (deleteSessionFromID w ss) = map f ss \<or>
   (\<exists>i. map f (deleteSessionFromID w ss) = splice1 i (map f ss))"
  by (auto simp: deleteSessionFromID_def map_splice1 split: option.split)

lemma distinct_map_deleteSessionFromID:
  "distinct (map f ss) \<Longrightarrow> distinct (map f (deleteSessionFromID w ss))"
  using map_deleteSessionFromID [of f w ss] by (auto simp: distinct_splice1)

lemma clearFromTargetID_wf:
  assumes wf: "wellFormed ss"
  shows "map ID (snd (updateSessionClearTargetInfoFromTargetID d ss)) = map ID ss"
    and "map pairOf (snd (updateSessionClearTargetInfoFromTargetID d ss)) = map pairOf ss"
    and "set (snd (updateSessionClearTargetInfoFromTargetID d ss)) = unlinkFrom d ` set ss"
proof -
  let ?P = "\<lambda>s. targetWS s = Some d"
  show "map ID (snd (updateSessionClearTargetInfoFromTargetID d ss)) = map ID ss"
    by (auto simp: updateSessionClearTargetInfoFromTargetID_def map_update_same
          split: option.split dest: findIndex_Some)
  show "map pairOf (snd (updateSessionClearTargetInfoFromTargetID d ss)) = map pairOf ss"
    by (auto simp: updateSessionClearTargetInfoFromTargetID_def map_update_same
          split: option.split dest: findIndex_Some)
  show "set (snd (updateSessionClearTargetInfoFromTargetID d ss)) = unlinkFrom d ` set ss"
  proof (cases "findIndex ?P ss")
    case None
    then have "\<forall>s\<in>set ss. unlinkFrom d s = s"
      by (simp add: findIndex_None unlinkFrom_def)
    then have "unlinkFrom d ` set ss = set ss" by force
    with None show ?thesis by (simp add: updateSessionClearTargetInfoFromTargetID_def)
  next
    case (Some i)
    from findIndex_Some [OF Some] have i: "i < length ss" "?P (ss ! i)" by simp_all
    then have xin: "ss ! i \<in> set ss" by simp
    have other: "\<forall>s\<in>set ss - {ss ! i}. unlinkFrom d s = s"
    proof
      fix s assume a: "s \<in> set ss - {ss ! i}"
      have "targetWS s \<noteq> Some d"
      proof
        assume "targetWS s = Some d"
        from pointer_unique [OF wf _ this xin i(2)] a show False by simp
      qed
      then show "unlinkFrom d s = s" by (simp add: unlinkFrom_def)
    qed
    have "set (ss[i := clearTarget (ss ! i)]) = insert (clearTarget (ss ! i)) (set ss - {ss ! i})"
      using wellFormed_distinct [OF wf] i(1) by (rule set_update_distinct)
    also have "\<dots> = insert (unlinkFrom d (ss ! i)) (unlinkFrom d ` (set ss - {ss ! i}))"
      using other i(2) by (simp add: unlinkFrom_def)
    also have "\<dots> = unlinkFrom d ` set ss" using xin by blast
    finally show ?thesis using Some by (simp add: updateSessionClearTargetInfoFromTargetID_def)
  qed
qed

lemma set_onClose:
  assumes wf: "wellFormed ss"
  shows "set (table (onClose d ss)) = unlinkFrom d ` {s \<in> set ss. ID s \<noteq> d}"
proof -
  let ?ss' = "snd (updateSessionClearTargetInfoFromTargetID d ss)"
  from wf have "distinct (map ID ss)" by (simp add: wellFormed_def)
  then have "distinct (map ID ?ss')" by (simp add: clearFromTargetID_wf(1) [OF wf])
  then have "set (deleteSessionFromID d ?ss') = {s \<in> set ?ss'. ID s \<noteq> d}"
    by (rule set_deleteSessionFromID)
  also have "\<dots> = {s \<in> unlinkFrom d ` set ss. ID s \<noteq> d}"
    by (simp add: clearFromTargetID_wf(3) [OF wf])
  also have "\<dots> = unlinkFrom d ` {s \<in> set ss. ID s \<noteq> d}"
    by (auto simp: unlinkFrom_def)
  finally show ?thesis by (simp add: onClose_def case_prod_beta)
qed

lemma wellFormed_onClose:
  assumes wf: "wellFormed ss"
  shows "wellFormed (table (onClose d ss))"
proof -
  let ?ss' = "snd (updateSessionClearTargetInfoFromTargetID d ss)"
  have tab: "table (onClose d ss) = deleteSessionFromID d ?ss'"
    by (simp add: onClose_def split: prod.split)
  from wf have d1: "distinct (map ID (table (onClose d ss)))"
    unfolding tab
    by (intro distinct_map_deleteSessionFromID) (simp add: clearFromTargetID_wf(1) wellFormed_def)
  from wf have d2: "distinct (map pairOf (table (onClose d ss)))"
    unfolding tab
    by (intro distinct_map_deleteSessionFromID) (simp add: clearFromTargetID_wf(2) wellFormed_def)
  note set' = set_onClose [OF wf, of d]
  have sound: "\<forall>s\<in>set (table (onClose d ss)). recordSound s"
    using wf by (auto simp: set' unlinkFrom_def recordSound_clearTarget wellFormed_def)
  have "\<forall>s\<in>set (table (onClose d ss)). linked (table (onClose d ss)) s"
  proof
    fix s1 assume "s1 \<in> set (table (onClose d ss))"
    then obtain s where s: "s \<in> set ss" "ID s \<noteq> d" "s1 = unlinkFrom d s"
      unfolding set' by blast
    show "linked (table (onClose d ss)) s1"
    proof (rule linkedI)
      fix p assume p: "targetWS s1 = Some p"
      with s(3) have e: "s1 = s" and nd: "targetWS s \<noteq> Some d"
        by (auto simp: unlinkFrom_def split: if_splits)
      from wf s(1) have "linked ss s" by (simp add: wellFormed_def)
      from linkedD [OF this] p e obtain s' where ne: "clientID s \<noteq> targetID s" and
        s': "s' \<in> set ss" "ID s' = p" "pairOf s' = (targetID s, clientID s)"
            "targetWS s' = Some (ID s)"
        by auto
      from p e nd s'(2) have "ID s' \<noteq> d" by auto
      moreover from s'(4) s(2) have "unlinkFrom d s' = s'" by (simp add: unlinkFrom_def)
      ultimately have "unlinkFrom d s' \<in> unlinkFrom d ` {s \<in> set ss. ID s \<noteq> d}"
        using s'(1) by blast
      then have "s' \<in> set (table (onClose d ss))"
        unfolding set' \<open>unlinkFrom d s' = s'\<close> .
      with ne s' e show "clientID s1 \<noteq> targetID s1 \<and>
        (\<exists>s'\<in>set (table (onClose d ss)). ID s' = p \<and> pairOf s' = (targetID s1, clientID s1) \<and>
           targetWS s' = Some (ID s1))"
        by blast
    qed
  qed
  with sound d1 d2 show ?thesis by (simp add: wellFormed_def)
qed

section \<open>Relay lookup\<close>

lemma getTargetWSFromSession_recordOf:
  "getTargetWSFromSession w ss =
     (case recordOf w ss of
        None \<Rightarrow> Number (- 1)
      | Some s \<Rightarrow> if clientKey s = targetKey s then Socket (targetWS s) else Number (- 2))"
  by (induction ss) (simp_all add: recordOf_def)

lemma relay_dropped:
  assumes "recordOf c ss = None \<or>
           (\<exists>s. recordOf c ss = Some s \<and> (clientKey s \<noteq> targetKey s \<or> targetWS s = None))"
  shows "sent (handleEvent (COMMAND c command) ss) = [] \<and>
         table (handleEvent (COMMAND c command) ss) = ss"
  using assms
  by (auto simp: processCommand_def getTargetWSFromSession_recordOf
           split: lookup.split option.split)

section \<open>Reachable tables are well formed\<close>

lemma table_onSession:
  "table (onSession w client target key ss) = snd (updateSessionTable w client target key ss)"
  by (simp add: onSession_def case_prod_beta split: option.split)

lemma wellFormed_handleEvent: "wellFormed ss \<Longrightarrow> wellFormed (table (handleEvent e ss))"
proof (cases e)
  case (SESSION w client target key)
  assume "wellFormed ss"
  then show ?thesis
    unfolding SESSION by (simp add: table_onSession wellFormed_updateSessionTable)
next
  case (COMMAND w command)
  assume "wellFormed ss"
  then show ?thesis
    unfolding COMMAND by (simp add: processCommand_def split: lookup.split option.split)
next
  case (CLOSE w)
  assume "wellFormed ss"
  then show ?thesis
    unfolding CLOSE by (simp add: wellFormed_onClose)
next
  case (OTHER w)
  assume "wellFormed ss"
  then show ?thesis unfolding OTHER by simp
qed

lemma wellFormed_Nil: "wellFormed []"
  by (simp add: wellFormed_def)

lemma reachable_wellFormed: "reachable ss \<Longrightarrow> wellFormed ss"
  by (induction rule: reachable.induct) (simp_all add: wellFormed_Nil wellFormed_handleEvent)

lemma reachable_run: "reachable ss \<Longrightarrow> reachable (run es ss)"
  by (induction es arbitrary: ss) (simp_all add: reachable.step)

lemma updateSessionTable_alone:
  assumes wf: "wellFormed ss"
    and nr: "findIndex (isReverse cid tid) (cleanup w cid tid ss) = None"
  shows "fst (updateSessionTable w (Some cid) (Some tid) (Some k) ss) = Obj (- 1) w None"
    and "set (snd (updateSessionTable w (Some cid) (Some tid) (Some k) ss)) =
           insert (declared w cid tid k None) (bystanders cid tid (cleanup w cid tid ss))"
proof -
  let ?ss1 = "cleanup w cid tid ss"
  have wf1: "wellFormed ?ss1" using wf by (rule wellFormed_cleanup)
  show "fst (updateSessionTable w (Some cid) (Some tid) (Some k) ss) = Obj (- 1) w None"
    unfolding updateSessionTable_wf [OF wf] using nr by (simp split: option.split)
  show "set (snd (updateSessionTable w (Some cid) (Some tid) (Some k) ss)) =
           insert (declared w cid tid k None) (bystanders cid tid ?ss1)"
  proof (cases "findIndex (isForward cid tid) ?ss1")
    case None
    with nr have "snd (updateSessionTable w (Some cid) (Some tid) (Some k) ss) =
        ?ss1 @ [declared w cid tid k None]"
      unfolding updateSessionTable_wf [OF wf] by simp
    then show ?thesis by (simp only: set_case_new [OF None nr])
  next
    case (Some c)
    with nr have "snd (updateSessionTable w (Some cid) (Some tid) (Some k) ss) =
        ?ss1[c := declared w cid tid k None]"
      unfolding updateSessionTable_wf [OF wf] by simp
    then show ?thesis by (simp only: set_case_forward [OF wf1 Some nr])
  qed
qed

lemma updateSessionTable_paired:
  assumes wf: "wellFormed ss"
    and r: "findIndex (isReverse cid tid) (cleanup w cid tid ss) = Some t"
  shows "fst (updateSessionTable w (Some cid) (Some tid) (Some k) ss) =
           Obj (outcomeOf k (cleanup w cid tid ss ! t)) w (clientWS (cleanup w cid tid ss ! t))"
    and "set (snd (updateSessionTable w (Some cid) (Some tid) (Some k) ss)) =
           insert (declared w cid tid k (Some (cleanup w cid tid ss ! t)))
             (insert (answered w cid tid k (cleanup w cid tid ss ! t))
                (bystanders cid tid (cleanup w cid tid ss)))"
proof -
  let ?ss1 = "cleanup w cid tid ss"
  have wf1: "wellFormed ?ss1" using wf by (rule wellFormed_cleanup)
  have own: "\<And>s. s \<in> set ?ss1 \<Longrightarrow> ID s = w \<Longrightarrow> isForward cid tid s"
    using wf by (rule cleanup_owner_forward)
  show "fst (updateSessionTable w (Some cid) (Some tid) (Some k) ss) =
           Obj (outcomeOf k (?ss1 ! t)) w (clientWS (?ss1 ! t))"
    unfolding updateSessionTable_wf [OF wf] using r by (simp split: option.split)
  show "set (snd (updateSessionTable w (Some cid) (Some tid) (Some k) ss)) =
           insert (declared w cid tid k (Some (?ss1 ! t)))
             (insert (answered w cid tid k (?ss1 ! t)) (bystanders cid tid ?ss1))"
  proof (cases "findIndex (isForward cid tid) ?ss1")
    case None
    with r have "snd (updateSessionTable w (Some cid) (Some tid) (Some k) ss) =
        ?ss1[t := answered w cid tid k (?ss1 ! t)] @ [declared w cid tid k (Some (?ss1 ! t))]"
      unfolding updateSessionTable_wf [OF wf] by simp
    then show ?thesis by (simp only: set_case_reverse [OF wf1 None r])
  next
    case (Some c)
    with r have "snd (updateSessionTable w (Some cid) (Some tid) (Some k) ss) =
        ?ss1[c := declared w cid tid k (Some (?ss1 ! t)), t := answered w cid tid k (?ss1 ! t)]"
      unfolding updateSessionTable_wf [OF wf] by simp
    then show ?thesis by (simp only: facts_case_both(3) [OF wf1 own Some r])
  qed
qed

lemma recordOf_wf:
  assumes wf: "wellFormed ss" and s: "s \<in> set ss" "ID s = w"
  shows "recordOf w ss = Some s"
proof -
  from wf have snd: "\<forall>x\<in>set ss. clientWS x = Some (ID x)"
    by (simp add: wellFormed_def recordSound_def)
  with s have "clientWS s = Some w" by simp
  with s(1) have "find (\<lambda>x. clientWS x = Some w) ss \<noteq> None"
    by (auto simp: find_None_iff)
  then obtain x where x: "find (\<lambda>x. clientWS x = Some w) ss = Some x" by blast
  then have "x \<in> set ss" "clientWS x = Some w"
    by (auto simp: find_Some_iff)
  with snd have "x \<in> set ss" "ID x = ID s" using s(2) by auto
  from wellFormed_ID_eq [OF wf this(1) s(1) this(2)] x show ?thesis
    by (simp add: recordOf_def)
qed

lemma relay_delivered:
  assumes wf: "wellFormed ss" and s: "linkRecord A B a b k k \<in> set ss"
  shows "handleEvent (COMMAND A command) ss = \<lparr>table = ss, sent = [(B, command)], raised = None\<rparr>"
proof -
  have "recordOf A ss = Some (linkRecord A B a b k k)"
    using wf s by (rule recordOf_wf) (simp add: linkRecord_def)
  then show ?thesis
    by (simp add: processCommand_def getTargetWSFromSession_recordOf linkRecord_def)
qed

lemma confirmedPair_distinct_systems:
  assumes wf: "wellFormed ss" and cp: "confirmedPair ss A B a b k"
  shows "a \<noteq> b" and "A \<noteq> B"
proof -
  from cp have ra: "linkRecord A B a b k k \<in> set ss" by (simp add: confirmedPair_def)
  from wf ra have "linked ss (linkRecord A B a b k k)" by (simp add: wellFormed_def)
  from linkedD [OF this, of B] show "a \<noteq> b" by (simp add: linkRecord_def)
  from pointer_not_self [OF wf ra, of B] show "A \<noteq> B" by (simp add: linkRecord_def)
qed

lemma clearTarget_linkRecord: "clearTarget (linkRecord A B a b k k') = pendingRecord A a b k"
  by (simp add: clearTarget_def linkRecord_def pendingRecord_def)

lemma showInt_minus: "showInt (- 1) = ''-1''" "showInt (- 2) = ''-2''"
  by (simp_all add: showInt_def showNat.simps)

lemma onSession_Obj:
  assumes "updateSessionTable w client target key ss = (Obj r w (Some p), ss')" "r = 0 \<or> r = - 2"
  shows "onSession w client target key ss =
           \<lparr>table = ss',
            sent = (if r = 0 then [(w, ''SESSION_UP''), (p, ''SESSION_UP'')]
                    else [(w, ''SESSION_NOT_UP: -2''), (p, ''SESSION_NOT_UP: -2'')]),
            raised = None\<rparr>"
  using assms by (auto simp: onSession_def showInt_minus)

lemma onSession_pending:
  assumes "updateSessionTable w client target key ss = (Obj (- 1) w None, ss')"
  shows "onSession w client target key ss =
           \<lparr>table = ss', sent = [(w, ''SESSION_NOT_UP: -1'')], raised = None\<rparr>"
  using assms by (simp add: onSession_def showInt_minus)

lemma cleanup_fresh: "\<forall>s\<in>set ss. ID s \<noteq> w \<Longrightarrow> cleanup w cid tid ss = ss"
proof -
  assume "\<forall>s\<in>set ss. ID s \<noteq> w"
  then have "\<forall>s\<in>set ss. \<not> changesIDs w cid tid s" by (simp add: changesIDs_def)
  then have "findIndex (changesIDs w cid tid) ss = None" by (simp add: findIndex_None)
  then show ?thesis by (simp add: cleanup_def)
qed

lemma bystanders_subset: "bystanders cid tid ss \<subseteq> set ss"
  by (auto simp: bystanders_def)

lemma first_declaration:
  assumes wf: "wellFormed ss" and fresh: "\<forall>s\<in>set ss. ID s \<noteq> A"
  shows "\<exists>ro. declared A a b k ro \<in> set (table (handleEvent (SESSION A (Some a) (Some b) (Some k)) ss))"
    and "ID ` set (table (handleEvent (SESSION A (Some a) (Some b) (Some k)) ss)) \<subseteq> insert A (ID ` set ss)"
proof -
  let ?t = "table (handleEvent (SESSION A (Some a) (Some b) (Some k)) ss)"
  have tab: "?t = snd (updateSessionTable A (Some a) (Some b) (Some k) ss)"
    by (simp add: table_onSession)
  have cl: "cleanup A a b ss = ss" using fresh by (rule cleanup_fresh)
  show "\<exists>ro. declared A a b k ro \<in> set ?t"
  proof (cases "findIndex (isReverse a b) (cleanup A a b ss)")
    case None
    from updateSessionTable_alone(2) [OF wf None, of k] show ?thesis
      unfolding tab by blast
  next
    case (Some t)
    from updateSessionTable_paired(2) [OF wf Some, of k] show ?thesis
      unfolding tab by blast
  qed
  show "ID ` set ?t \<subseteq> insert A (ID ` set ss)"
  proof (cases "findIndex (isReverse a b) (cleanup A a b ss)")
    case None
    from updateSessionTable_alone(2) [OF wf None, of k] bystanders_subset [of a b ss]
    show ?thesis unfolding tab cl by auto
  next
    case (Some t)
    from findIndex_Some [OF Some] have "ss ! t \<in> set ss" by (simp add: cl)
    with updateSessionTable_paired(2) [OF wf Some, of k] bystanders_subset [of a b ss]
    show ?thesis unfolding tab cl by auto
  qed
qed

lemma handshake:
  assumes wf: "wellFormed ss" and AB: "A \<noteq> B" and ab: "a \<noteq> b"
    and fresh: "\<forall>s\<in>set ss. ID s \<noteq> A \<and> ID s \<noteq> B"
  shows "wellFormed (table (afterBoth A B a b k1 k2 ss))"
    and "linkRecord A B a b k1 k2 \<in> set (table (afterBoth A B a b k1 k2 ss))"
    and "linkRecord B A b a k2 k1 \<in> set (table (afterBoth A B a b k1 k2 ss))"
    and "sent (afterBoth A B a b k1 k2 ss) =
           (if k1 = k2 then [(B, ''SESSION_UP''), (A, ''SESSION_UP'')]
            else [(B, ''SESSION_NOT_UP: -2''), (A, ''SESSION_NOT_UP: -2'')])"
proof -
  let ?s1 = "table (handleEvent (SESSION A (Some a) (Some b) (Some k1)) ss)"
  have wf1: "wellFormed ?s1" using wf by (rule wellFormed_handleEvent)
  from fresh have fA: "\<forall>s\<in>set ss. ID s \<noteq> A" by blast
  from first_declaration(1) [OF wf fA, of a b k1] obtain ro
    where rA: "declared A a b k1 ro \<in> set ?s1" by blast
  let ?rA = "declared A a b k1 ro"
  have fB: "\<forall>s\<in>set ?s1. ID s \<noteq> B"
  proof
    fix s assume "s \<in> set ?s1"
    then have "ID s \<in> insert A (ID ` set ss)"
      using first_declaration(2) [OF wf fA, of a b k1] by blast
    with fresh AB show "ID s \<noteq> B" by auto
  qed
  then have cl: "cleanup B b a ?s1 = ?s1" by (rule cleanup_fresh)
  have rev: "isReverse b a ?rA" using ab by (simp add: isReverse_pairOf)
  have "\<exists>t<length ?s1. findIndex (isReverse b a) ?s1 = Some t \<and> ?s1 ! t = ?rA"
    using rA rev
  proof (rule findIndex_the)
    fix x assume "x \<in> set ?s1" "isReverse b a x"
    from reverse_unique [OF wf1 this(1) rA this(2) rev] show "x = ?rA" .
  qed
  then obtain t where t: "findIndex (isReverse b a) (cleanup B b a ?s1) = Some t"
    "cleanup B b a ?s1 ! t = ?rA"
    unfolding cl by blast
  have d: "declared B b a k2 (Some ?rA) = linkRecord B A b a k2 k1"
    by (simp add: declared_def linkRecord_def)
  have an: "answered B b a k2 ?rA = linkRecord A B a b k1 k2"
    by (simp add: declared_def answered_def linkRecord_def)
  note p = updateSessionTable_paired [OF wf1 t(1), of k2, unfolded t(2) d an]
  have tab: "table (afterBoth A B a b k1 k2 ss) =
             snd (updateSessionTable B (Some b) (Some a) (Some k2) ?s1)"
    by (simp add: afterBoth_def table_onSession)
  show "wellFormed (table (afterBoth A B a b k1 k2 ss))"
    unfolding afterBoth_def using wf1 by (rule wellFormed_handleEvent)
  show "linkRecord A B a b k1 k2 \<in> set (table (afterBoth A B a b k1 k2 ss))"
    unfolding tab p(2) by simp
  show "linkRecord B A b a k2 k1 \<in> set (table (afterBoth A B a b k1 k2 ss))"
    unfolding tab p(2) by simp
  have res: "updateSessionTable B (Some b) (Some a) (Some k2) ?s1 =
        (Obj (if k1 = k2 then 0 else - 2) B (Some A),
         snd (updateSessionTable B (Some b) (Some a) (Some k2) ?s1))"
    using p(1) by (auto simp: prod_eq_iff outcomeOf_def declared_def)
  show "sent (afterBoth A B a b k1 k2 ss) =
           (if k1 = k2 then [(B, ''SESSION_UP''), (A, ''SESSION_UP'')]
            else [(B, ''SESSION_NOT_UP: -2''), (A, ''SESSION_NOT_UP: -2'')])"
  proof -
    have "onSession B (Some b) (Some a) (Some k2) ?s1 =
      \<lparr>table = snd (updateSessionTable B (Some b) (Some a) (Some k2) ?s1),
       sent = (if (if k1 = k2 then 0 else - 2) = (0::int)
               then [(B, ''SESSION_UP''), (A, ''SESSION_UP'')]
               else [(B, ''SESSION_NOT_UP: -2''), (A, ''SESSION_NOT_UP: -2'')]),
       raised = None\<rparr>"
      using res by (rule onSession_Obj) simp
    then show ?thesis by (simp add: afterBoth_def)
  qed
qed

lemma isForward_clearTarget [simp]: "isForward cid tid (clearTarget s) = isForward cid tid s"
  by (simp add: isForward_pairOf)

lemma forward_survives_cleanup:
  assumes wf: "wellFormed ss" and f: "f \<in> set ss" "isForward cid tid f"
  shows "\<exists>f'\<in>set (cleanup w cid tid ss). isForward cid tid f'"
proof (cases "findIndex (changesIDs w cid tid) ss")
  case None
  with f show ?thesis by (auto simp: cleanup_def)
next
  case (Some j)
  from findIndex_Some [OF Some] have j: "j < length ss" "changesIDs w cid tid (ss ! j)" by simp_all
  from wf have d1: "distinct (map ID ss)" by (simp add: wellFormed_def)
  let ?clr = "\<lambda>s. if targetWS (ss ! j) = Some (ID s) then clearTarget s else s"
  from j(2) f(2) have "f \<noteq> ss ! j" by (auto simp: changesIDs_def isForward_def)
  with f(1) have "f \<in> set ss - {ss ! j}" by simp
  then have "?clr f \<in> ?clr ` (set ss - {ss ! j})" by (rule imageI)
  then have "?clr f \<in> set (cleanup w cid tid ss)"
    using Some by (simp only: cleanup_def option.case set_cleanupAt [OF d1 j(1)])
  moreover have "isForward cid tid (?clr f)" using f(2) by simp
  ultimately show ?thesis by blast
qed

lemma forward_in_result:
  assumes wf: "wellFormed ss"
    and s: "s \<in> set (snd (updateSessionTable w (Some cid) (Some tid) (Some k) ss))"
           "isForward cid tid s"
  shows "ID s = w \<and> clientWS s = Some w"
proof (cases "findIndex (isReverse cid tid) (cleanup w cid tid ss)")
  case None
  from s(1) [unfolded updateSessionTable_alone(2) [OF wf None]] s(2)
  have "s = declared w cid tid k None" by (auto simp: bystanders_def)
  then show ?thesis by (simp add: declared_def)
next
  case (Some t)
  from findIndex_Some [OF Some] have "isReverse cid tid (cleanup w cid tid ss ! t)" by simp
  then have "cid \<noteq> tid" by (simp add: isReverse_pairOf)
  then have "\<not> isForward cid tid (answered w cid tid k (cleanup w cid tid ss ! t))"
    by (simp add: isForward_pairOf)
  with s(1) [unfolded updateSessionTable_paired(2) [OF wf Some]] s(2)
  have "s = declared w cid tid k (Some (cleanup w cid tid ss ! t))" by (auto simp: bystanders_def)
  then show ?thesis by (simp add: declared_def)
qed

section \<open>The properties\<close>

text \<open>
  Claim C1. In a reachable table with a confirmed pair of \<open>A\<close> and \<open>B\<close> (\<open>A\<close> declared
  \<open>(a, b, k)\<close>, \<open>B\<close> declared \<open>(b, a, k)\<close>), when \<open>A\<close> declares \<open>(a, c, k')\<close> with
  \<open>c \<noteq> b\<close>: afterwards the record of \<open>B\<close> is its old record with target key and target
  socket cleared, and it is the only record of \<open>B\<close>; every record of \<open>A\<close> carries the pair
  \<open>(a, c)\<close>, so none with the pair \<open>(a, b)\<close> is left; and \<open>B\<close> is sent nothing at all: the
  identity-change branch clears the partner's record without notifying the partner, unlike
  the disconnect handler.
\<close>

theorem identity_change_cascade:
  assumes r: "reachable ss" and cp: "confirmedPair ss A B a b k" and cb: "c \<noteq> b"
  shows "pendingRecord B b a k \<in> set (table (handleEvent (SESSION A (Some a) (Some c) (Some k')) ss)) \<and>
         (\<forall>s\<in>set (table (handleEvent (SESSION A (Some a) (Some c) (Some k')) ss)).
            ID s = B \<longrightarrow> s = pendingRecord B b a k) \<and>
         (\<forall>s\<in>set (table (handleEvent (SESSION A (Some a) (Some c) (Some k')) ss)).
            ID s = A \<longrightarrow> pairOf s = (a, c)) \<and>
         B \<notin> fst ` set (sent (handleEvent (SESSION A (Some a) (Some c) (Some k')) ss))"
proof -
  let ?rA = "linkRecord A B a b k k" and ?rB = "linkRecord B A b a k k"
  let ?pB = "pendingRecord B b a k"
  let ?o = "handleEvent (SESSION A (Some a) (Some c) (Some k')) ss"
  let ?ss1 = "cleanup A a c ss"
  from r have wf: "wellFormed ss" by (rule reachable_wellFormed)
  from cp have ra: "?rA \<in> set ss" and rb: "?rB \<in> set ss" by (simp_all add: confirmedPair_def)
  from confirmedPair_distinct_systems [OF wf cp] have ab: "a \<noteq> b" and AB: "A \<noteq> B" by simp_all
  from wf have d1: "distinct (map ID ss)" by (simp add: wellFormed_def)
  have wf1: "wellFormed ?ss1" using wf by (rule wellFormed_cleanup)
  have wfT: "wellFormed (table ?o)" using wf by (rule wellFormed_handleEvent)
  have tab: "table ?o = snd (updateSessionTable A (Some a) (Some c) (Some k') ss)"
    by (simp add: table_onSession)
  have chA: "changesIDs A a c ?rA" using cb by (simp add: changesIDs_def linkRecord_def)
  have "\<exists>j<length ss. findIndex (changesIDs A a c) ss = Some j \<and> ss ! j = ?rA"
    using ra chA
  proof (rule findIndex_the)
    fix x assume x: "x \<in> set ss" "changesIDs A a c x"
    then have "ID x = ID ?rA" by (simp add: changesIDs_def linkRecord_def)
    from wellFormed_ID_eq [OF wf x(1) ra this] show "x = ?rA" .
  qed
  then obtain j where j: "j < length ss" "findIndex (changesIDs A a c) ss = Some j" "ss ! j = ?rA"
    by blast
  let ?clr = "\<lambda>s. if targetWS (ss ! j) = Some (ID s) then clearTarget s else s"
  have set1: "set ?ss1 = ?clr ` (set ss - {ss ! j})"
    using j(2) by (simp only: cleanup_def option.case set_cleanupAt [OF d1 j(1)])
  have "?rB \<noteq> ?rA" using AB by (auto simp: linkRecord_def)
  with rb have "?rB \<in> set ss - {ss ! j}" by (simp add: j(3))
  then have "?clr ?rB \<in> ?clr ` (set ss - {ss ! j})" by (rule imageI)
  moreover have "?clr ?rB = ?pB"
    by (simp add: j(3) clearTarget_linkRecord) (simp add: linkRecord_def)
  ultimately have pB1: "?pB \<in> set ?ss1" by (simp only: set1)
  have nf: "\<not> isForward a c ?pB" using ab by (simp add: isForward_def pendingRecord_def)
  have nr: "\<not> isReverse a c ?pB" using cb by (simp add: isReverse_def pendingRecord_def)
  from pB1 nf nr have bys: "?pB \<in> bystanders a c ?ss1" by (simp add: bystanders_def)
  have main: "?pB \<in> set (table ?o) \<and> (\<exists>ro. declared A a c k' ro \<in> set (table ?o)) \<and>
              B \<notin> fst ` set (sent ?o)"
  proof (cases "findIndex (isReverse a c) ?ss1")
    case None
    note al = updateSessionTable_alone [OF wf None, of k']
    from al(1) have "updateSessionTable A (Some a) (Some c) (Some k') ss =
        (Obj (- 1) A None, snd (updateSessionTable A (Some a) (Some c) (Some k') ss))"
      by (simp add: prod_eq_iff)
    from onSession_pending [OF this] AB have "B \<notin> fst ` set (sent ?o)" by simp
    with bys show ?thesis unfolding tab al(2) by blast
  next
    case (Some t)
    let ?r = "?ss1 ! t"
    note pa = updateSessionTable_paired [OF wf Some, of k']
    from findIndex_Some [OF Some] have t: "t < length ?ss1" "isReverse a c ?r" by simp_all
    then have rin: "?r \<in> set ?ss1" by simp
    with wf1 have "recordSound ?r" by (simp add: wellFormed_def)
    then have cw: "clientWS ?r = Some (ID ?r)" by (simp add: recordSound_def)
    have "ID ?r \<noteq> B"
    proof
      assume "ID ?r = B"
      then have "ID ?r = ID ?pB" by (simp add: pendingRecord_def)
      from wellFormed_ID_eq [OF wf1 rin pB1 this] t(2) nr show False by simp
    qed
    from pa(1) cw have "updateSessionTable A (Some a) (Some c) (Some k') ss =
        (Obj (outcomeOf k' ?r) A (Some (ID ?r)),
         snd (updateSessionTable A (Some a) (Some c) (Some k') ss))"
      by (simp add: prod_eq_iff)
    from onSession_Obj [OF this] AB \<open>ID ?r \<noteq> B\<close> have "B \<notin> fst ` set (sent ?o)"
      by (simp add: outcomeOf_def)
    with bys show ?thesis unfolding tab pa(2) by blast
  qed
  then obtain ro where dT: "declared A a c k' ro \<in> set (table ?o)" by blast
  have 2: "\<forall>s\<in>set (table ?o). ID s = B \<longrightarrow> s = ?pB"
  proof (intro ballI impI)
    fix s assume s: "s \<in> set (table ?o)" "ID s = B"
    then have "ID s = ID ?pB" by (simp add: pendingRecord_def)
    from wellFormed_ID_eq [OF wfT s(1) _ this] main show "s = ?pB" by blast
  qed
  have 3: "\<forall>s\<in>set (table ?o). ID s = A \<longrightarrow> pairOf s = (a, c)"
  proof (intro ballI impI)
    fix s assume s: "s \<in> set (table ?o)" "ID s = A"
    then have "ID s = ID (declared A a c k' ro)" by simp
    from wellFormed_ID_eq [OF wfT s(1) dT this] show "pairOf s = (a, c)" by simp
  qed
  from main 2 3 show ?thesis by blast
qed

text \<open>The scenario of C1 on the smallest table: connection 2 is sent nothing.\<close>

theorem identity_change_cascade_witness:
  "handleEvent (SESSION 1 (Some ''a'') (Some ''c'') (Some ''k''))
     (run [SESSION 1 (Some ''a'') (Some ''b'') (Some ''k''),
           SESSION 2 (Some ''b'') (Some ''a'') (Some ''k'')] []) =
     \<lparr>table = [pendingRecord 2 ''b'' ''a'' ''k'', pendingRecord 1 ''a'' ''c'' ''k''],
      sent = [(1, ''SESSION_NOT_UP: -1'')], raised = None\<rparr> \<and>
   2 \<notin> fst ` set (sent (handleEvent (SESSION 1 (Some ''a'') (Some ''c'') (Some ''k''))
     (run [SESSION 1 (Some ''a'') (Some ''b'') (Some ''k''),
           SESSION 2 (Some ''b'') (Some ''a'') (Some ''k'')] [])))"
proof -
  have 1: "confirmedPair
     (run [SESSION 1 (Some ''a'') (Some ''b'') (Some ''k''),
           SESSION 2 (Some ''b'') (Some ''a'') (Some ''k'')] []) 1 2 ''a'' ''b'' ''k''"
    by code_simp
  have 2: "''c'' \<noteq> ''b''" by simp
  have 3: "handleEvent (SESSION 1 (Some ''a'') (Some ''c'') (Some ''k''))
     (run [SESSION 1 (Some ''a'') (Some ''b'') (Some ''k''),
           SESSION 2 (Some ''b'') (Some ''a'') (Some ''k'')] []) =
     \<lparr>table = [pendingRecord 2 ''b'' ''a'' ''k'', pendingRecord 1 ''a'' ''c'' ''k''],
      sent = [(1, ''SESSION_NOT_UP: -1'')], raised = None\<rparr>"
    by code_simp
  from identity_change_cascade [OF reachable_run [OF reachable.init] 1 2, of "''k''"] 3
  show ?thesis by blast
qed

text \<open>
  Claim C2. A declaration with an absent client, target or key: \<open>updateSessionTable\<close>
  returns the bare number -100, whose \<open>result\<close> property is \<open>undefined\<close>, so the handler
  sends the declaring connection the text \<open>SESSION_NOT_UP: undefined\<close>, not
  \<open>SESSION_NOT_UP: -100\<close>. Nothing is sent to anyone else and the table is unchanged.
\<close>

theorem invalid_declaration_sends_undefined:
  "handleEvent (SESSION w None target key) ss =
     \<lparr>table = ss, sent = [(w, ''SESSION_NOT_UP: undefined'')], raised = None\<rparr> \<and>
   handleEvent (SESSION w client None key) ss =
     \<lparr>table = ss, sent = [(w, ''SESSION_NOT_UP: undefined'')], raised = None\<rparr> \<and>
   handleEvent (SESSION w client target None) ss =
     \<lparr>table = ss, sent = [(w, ''SESSION_NOT_UP: undefined'')], raised = None\<rparr>"
  by (simp add: onSession_def updateSessionTable_def split: option.split)

text \<open>
  Claim C3, amended by \<open>a \<noteq> b\<close>. In a reachable table in which the distinct
  connections \<open>A\<close> and \<open>B\<close> own no record, and for two different systems \<open>a\<close> and
  \<open>b\<close>: after \<open>A\<close> declares \<open>(a, b, k)\<close> and then \<open>B\<close> declares \<open>(b, a, k)\<close>, the second
  declaration sends \<open>SESSION_UP\<close> to \<open>B\<close> and to \<open>A\<close>, and a COMMAND from either
  connection is sent to the other one.
\<close>

theorem symmetric_pairing:
  assumes "reachable ss" and "A \<noteq> B" and "a \<noteq> b"
    and "\<forall>s\<in>set ss. ID s \<noteq> A \<and> ID s \<noteq> B"
  shows "sent (afterBoth A B a b k k ss) = [(B, ''SESSION_UP''), (A, ''SESSION_UP'')] \<and>
         handleEvent (COMMAND A command) (table (afterBoth A B a b k k ss)) =
           \<lparr>table = table (afterBoth A B a b k k ss), sent = [(B, command)], raised = None\<rparr> \<and>
         handleEvent (COMMAND B command) (table (afterBoth A B a b k k ss)) =
           \<lparr>table = table (afterBoth A B a b k k ss), sent = [(A, command)], raised = None\<rparr>"
proof -
  from assms(1) have wf: "wellFormed ss" by (rule reachable_wellFormed)
  note h = handshake [OF wf assms(2-4), where ?k1.0 = k and ?k2.0 = k]
  from h(4) have "sent (afterBoth A B a b k k ss) = [(B, ''SESSION_UP''), (A, ''SESSION_UP'')]"
    by simp
  moreover note relay_delivered [OF h(1) h(2)] relay_delivered [OF h(1) h(3)]
  ultimately show ?thesis by blast
qed

theorem symmetric_pairing_witness:
  "sent (afterBoth 1 2 ''a'' ''b'' ''k'' ''k''
      (run [SESSION 3 (Some ''c'') (Some ''d'') (Some ''z'')] [])) =
     [(2, ''SESSION_UP''), (1, ''SESSION_UP'')] \<and>
   handleEvent (COMMAND 1 ''ping'') (table (afterBoth 1 2 ''a'' ''b'' ''k'' ''k''
      (run [SESSION 3 (Some ''c'') (Some ''d'') (Some ''z'')] []))) =
     \<lparr>table = table (afterBoth 1 2 ''a'' ''b'' ''k'' ''k''
        (run [SESSION 3 (Some ''c'') (Some ''d'') (Some ''z'')] [])),
      sent = [(2, ''ping'')], raised = None\<rparr> \<and>
   handleEvent (COMMAND 2 ''ping'') (table (afterBoth 1 2 ''a'' ''b'' ''k'' ''k''
      (run [SESSION 3 (Some ''c'') (Some ''d'') (Some ''z'')] []))) =
     \<lparr>table = table (afterBoth 1 2 ''a'' ''b'' ''k'' ''k''
        (run [SESSION 3 (Some ''c'') (Some ''d'') (Some ''z'')] [])),
      sent = [(1, ''ping'')], raised = None\<rparr>"
proof -
  have 1: "(1::nat) \<noteq> 2" "''a'' \<noteq> ''b''" by simp_all
  have 2: "\<forall>s\<in>set (run [SESSION 3 (Some ''c'') (Some ''d'') (Some ''z'')] []). ID s \<noteq> 1 \<and> ID s \<noteq> 2"
    by code_simp
  from symmetric_pairing [OF reachable_run [OF reachable.init] 1 2]
  show ?thesis .
qed

text \<open>With \<open>a = b\<close> claim C3 fails: the record of \<open>A\<close> matches the declaration of \<open>B\<close>
  as its forward record, \<open>B\<close> takes it over and is told \<open>SESSION_NOT_UP: -1\<close>; \<open>A\<close> is
  sent nothing and its relay is dropped.\<close>

theorem symmetric_pairing_counterexample:
  "sent (afterBoth 1 2 ''a'' ''a'' ''k'' ''k'' []) = [(2, ''SESSION_NOT_UP: -1'')] \<and>
   sent (handleEvent (COMMAND 1 ''ping'') (table (afterBoth 1 2 ''a'' ''a'' ''k'' ''k'' []))) = []"
  by code_simp

text \<open>
  Claim C4, amended by \<open>a \<noteq> b\<close>. In a reachable table in which the distinct
  connections \<open>A\<close> and \<open>B\<close> own no record, and for two different systems \<open>a\<close> and
  \<open>b\<close>: after \<open>A\<close> declares \<open>(a, b, k1)\<close> and then \<open>B\<close> declares \<open>(b, a, k2)\<close> with
  another key, the second declaration sends \<open>SESSION_NOT_UP: -2\<close> to \<open>B\<close> and to \<open>A\<close>,
  and a COMMAND from either connection sends nothing.
\<close>

theorem mismatch_detection:
  assumes "reachable ss" and "A \<noteq> B" and "a \<noteq> b" and "k1 \<noteq> k2"
    and "\<forall>s\<in>set ss. ID s \<noteq> A \<and> ID s \<noteq> B"
  shows "sent (afterBoth A B a b k1 k2 ss) =
           [(B, ''SESSION_NOT_UP: -2''), (A, ''SESSION_NOT_UP: -2'')] \<and>
         sent (handleEvent (COMMAND A command) (table (afterBoth A B a b k1 k2 ss))) = [] \<and>
         sent (handleEvent (COMMAND B command) (table (afterBoth A B a b k1 k2 ss))) = []"
proof -
  from assms(1) have wf: "wellFormed ss" by (rule reachable_wellFormed)
  note h = handshake [OF wf assms(2,3,5), where ?k1.0 = k1 and ?k2.0 = k2]
  from h(4) assms(4) have 1: "sent (afterBoth A B a b k1 k2 ss) =
      [(B, ''SESSION_NOT_UP: -2''), (A, ''SESSION_NOT_UP: -2'')]"
    by simp
  have "recordOf A (table (afterBoth A B a b k1 k2 ss)) = Some (linkRecord A B a b k1 k2)"
    using h(1) h(2) by (rule recordOf_wf) (simp add: linkRecord_def)
  with assms(4) have 2: "sent (handleEvent (COMMAND A command) (table (afterBoth A B a b k1 k2 ss))) = []"
    by (intro relay_dropped [THEN conjunct1]) (simp add: linkRecord_def)
  have "recordOf B (table (afterBoth A B a b k1 k2 ss)) = Some (linkRecord B A b a k2 k1)"
    using h(1) h(3) by (rule recordOf_wf) (simp add: linkRecord_def)
  with assms(4) have 3: "sent (handleEvent (COMMAND B command) (table (afterBoth A B a b k1 k2 ss))) = []"
    by (intro relay_dropped [THEN conjunct1]) (simp add: linkRecord_def)
  from 1 2 3 show ?thesis by blast
qed

theorem mismatch_detection_witness:
  "sent (afterBoth 1 2 ''a'' ''b'' ''k1'' ''k2''
      (run [SESSION 3 (Some ''c'') (Some ''d'') (Some ''z'')] [])) =
     [(2, ''SESSION_NOT_UP: -2''), (1, ''SESSION_NOT_UP: -2'')] \<and>
   sent (handleEvent (COMMAND 1 ''ping'') (table (afterBoth 1 2 ''a'' ''b'' ''k1'' ''k2''
      (run [SESSION 3 (Some ''c'') (Some ''d'') (Some ''z'')] [])))) = [] \<and>
   sent (handleEvent (COMMAND 2 ''ping'') (table (afterBoth 1 2 ''a'' ''b'' ''k1'' ''k2''
      (run [SESSION 3 (Some ''c'') (Some ''d'') (Some ''z'')] [])))) = []"
proof -
  have 1: "(1::nat) \<noteq> 2" "''a'' \<noteq> ''b''" "''k1'' \<noteq> ''k2''" by simp_all
  have 2: "\<forall>s\<in>set (run [SESSION 3 (Some ''c'') (Some ''d'') (Some ''z'')] []). ID s \<noteq> 1 \<and> ID s \<noteq> 2"
    by code_simp
  from mismatch_detection [OF reachable_run [OF reachable.init] 1 2]
  show ?thesis .
qed

text \<open>With \<open>a = b\<close> claim C4 fails: \<open>B\<close> takes over the record of \<open>A\<close> and is told
  \<open>SESSION_NOT_UP: -1\<close>; \<open>A\<close> is sent nothing.\<close>

theorem mismatch_detection_counterexample:
  "sent (afterBoth 1 2 ''a'' ''a'' ''k1'' ''k2'' []) = [(2, ''SESSION_NOT_UP: -1'')]"
  by code_simp

text \<open>
  Claim C5. In a reachable table with a confirmed pair of \<open>A\<close> and \<open>B\<close>, the disconnect
  of \<open>B\<close> sends exactly one text, \<open>SESSION_NOT_UP: -1\<close>, to \<open>A\<close>; afterwards the record
  of \<open>A\<close> is its old record with target key and target socket cleared, it is the only
  record of \<open>A\<close>, and no record with the ID of \<open>B\<close> is left.
\<close>

theorem disconnect_cascade:
  assumes r: "reachable ss" and cp: "confirmedPair ss A B a b k"
  shows "sent (handleEvent (CLOSE B) ss) = [(A, ''SESSION_NOT_UP: -1'')] \<and>
         pendingRecord A a b k \<in> set (table (handleEvent (CLOSE B) ss)) \<and>
         (\<forall>s\<in>set (table (handleEvent (CLOSE B) ss)). ID s = A \<longrightarrow> s = pendingRecord A a b k) \<and>
         (\<forall>s\<in>set (table (handleEvent (CLOSE B) ss)). ID s \<noteq> B)"
proof -
  let ?rA = "linkRecord A B a b k k"
  from r have wf: "wellFormed ss" by (rule reachable_wellFormed)
  from cp have ra: "?rA \<in> set ss" by (simp add: confirmedPair_def)
  have tA: "targetWS ?rA = Some B" by (simp add: linkRecord_def)
  from confirmedPair_distinct_systems [OF wf cp] have AB: "A \<noteq> B" by simp
  have "\<exists>i<length ss. findIndex (\<lambda>s. targetWS s = Some B) ss = Some i \<and> ss ! i = ?rA"
    using ra tA
  proof (rule findIndex_the)
    fix x assume "x \<in> set ss" "targetWS x = Some B"
    from pointer_unique [OF wf this ra tA] show "x = ?rA" .
  qed
  then obtain i where i: "findIndex (\<lambda>s. targetWS s = Some B) ss = Some i" "ss ! i = ?rA"
    by blast
  then have 1: "sent (handleEvent (CLOSE B) ss) = [(A, ''SESSION_NOT_UP: -1'')]"
    by (simp add: onClose_def updateSessionClearTargetInfoFromTargetID_def linkRecord_def)
  note set' = set_onClose [OF wf, of B]
  have "unlinkFrom B ?rA \<in> unlinkFrom B ` {s \<in> set ss. ID s \<noteq> B}"
    using ra AB by (intro imageI) (simp add: linkRecord_def)
  then have 2: "pendingRecord A a b k \<in> set (table (handleEvent (CLOSE B) ss))"
    using tA by (simp add: set' unlinkFrom_def clearTarget_linkRecord)
  have wf': "wellFormed (table (handleEvent (CLOSE B) ss))"
    using wf by (rule wellFormed_handleEvent)
  have 3: "\<forall>s\<in>set (table (handleEvent (CLOSE B) ss)). ID s = A \<longrightarrow> s = pendingRecord A a b k"
  proof (intro ballI impI)
    fix s assume s: "s \<in> set (table (handleEvent (CLOSE B) ss))" "ID s = A"
    then have "ID s = ID (pendingRecord A a b k)" by (simp add: pendingRecord_def)
    from wellFormed_ID_eq [OF wf' s(1) 2 this] show "s = pendingRecord A a b k" .
  qed
  have 4: "\<forall>s\<in>set (table (handleEvent (CLOSE B) ss)). ID s \<noteq> B"
    by (auto simp: set' unlinkFrom_def)
  from 1 2 3 4 show ?thesis by blast
qed

theorem disconnect_cascade_witness:
  "sent (handleEvent (CLOSE 2)
     (run [SESSION 1 (Some ''a'') (Some ''b'') (Some ''k''),
           SESSION 2 (Some ''b'') (Some ''a'') (Some ''k'')] [])) = [(1, ''SESSION_NOT_UP: -1'')] \<and>
   pendingRecord 1 ''a'' ''b'' ''k'' \<in> set (table (handleEvent (CLOSE 2)
     (run [SESSION 1 (Some ''a'') (Some ''b'') (Some ''k''),
           SESSION 2 (Some ''b'') (Some ''a'') (Some ''k'')] [])))"
proof -
  have "confirmedPair
     (run [SESSION 1 (Some ''a'') (Some ''b'') (Some ''k''),
           SESSION 2 (Some ''b'') (Some ''a'') (Some ''k'')] []) 1 2 ''a'' ''b'' ''k''"
    by code_simp
  from disconnect_cascade [OF reachable_run [OF reachable.init] this]
  show ?thesis by blast
qed

text \<open>
  Claim C6. In a reachable table with a confirmed pair of \<open>A\<close> and \<open>B\<close>, when \<open>A\<close>
  declares the same \<open>(a, b, k)\<close> again, both connections are sent \<open>SESSION_UP\<close>, the
  table is unchanged, and the two records are still the confirmed pair.
\<close>

theorem redeclaration_idempotent:
  assumes r: "reachable ss" and cp: "confirmedPair ss A B a b k"
  shows "handleEvent (SESSION A (Some a) (Some b) (Some k)) ss =
           \<lparr>table = ss, sent = [(A, ''SESSION_UP''), (B, ''SESSION_UP'')], raised = None\<rparr> \<and>
         confirmedPair (table (handleEvent (SESSION A (Some a) (Some b) (Some k)) ss)) A B a b k"
proof -
  let ?rA = "linkRecord A B a b k k" and ?rB = "linkRecord B A b a k k"
  from r have wf: "wellFormed ss" by (rule reachable_wellFormed)
  from cp have ra: "?rA \<in> set ss" and rb: "?rB \<in> set ss" by (simp_all add: confirmedPair_def)
  from confirmedPair_distinct_systems [OF wf cp] have ab: "a \<noteq> b" by simp
  have "findIndex (changesIDs A a b) ss = None"
  proof -
    have "\<forall>s\<in>set ss. \<not> changesIDs A a b s"
    proof
      fix s assume s: "s \<in> set ss"
      show "\<not> changesIDs A a b s"
      proof
        assume "changesIDs A a b s"
        then have c: "ID s = A" "clientID s \<noteq> a \<or> targetID s \<noteq> b" by (simp_all add: changesIDs_def)
        from c(1) have "ID s = ID ?rA" by (simp add: linkRecord_def)
        from wellFormed_ID_eq [OF wf s ra this] c(2) show False by (simp add: linkRecord_def)
      qed
    qed
    then show ?thesis by (simp add: findIndex_None)
  qed
  then have cl: "cleanup A a b ss = ss" by (simp add: cleanup_def)
  have fA: "isForward a b ?rA" by (simp add: isForward_def linkRecord_def)
  have rB: "isReverse a b ?rB" using ab by (simp add: isReverse_pairOf pairOf_def linkRecord_def)
  have "\<exists>c<length ss. findIndex (isForward a b) ss = Some c \<and> ss ! c = ?rA"
    using ra fA
  proof (rule findIndex_the)
    fix x assume "x \<in> set ss" "isForward a b x"
    from forward_unique [OF wf this(1) ra this(2) fA] show "x = ?rA" .
  qed
  then obtain c where c: "c < length ss" "findIndex (isForward a b) ss = Some c" "ss ! c = ?rA"
    by blast
  have "\<exists>t<length ss. findIndex (isReverse a b) ss = Some t \<and> ss ! t = ?rB"
    using rb rB
  proof (rule findIndex_the)
    fix x assume "x \<in> set ss" "isReverse a b x"
    from reverse_unique [OF wf this(1) rb this(2) rB] show "x = ?rB" .
  qed
  then obtain t where t: "t < length ss" "findIndex (isReverse a b) ss = Some t" "ss ! t = ?rB"
    by blast
  have d: "declared A a b k (Some ?rB) = ?rA" by (simp add: declared_def linkRecord_def)
  have a: "answered A a b k ?rB = ?rB" by (simp add: answered_def linkRecord_def)
  have "ss[c := ss ! c, t := ss ! t] = ss" by simp
  then have tab: "ss[c := ?rA, t := ?rB] = ss" by (simp only: c(3) t(3))
  have "updateSessionTable A (Some a) (Some b) (Some k) ss = (Obj 0 A (Some B), ss)"
    unfolding updateSessionTable_wf [OF wf] cl
    by (simp add: c t d a tab) (simp add: outcomeOf_def linkRecord_def)
  then have "handleEvent (SESSION A (Some a) (Some b) (Some k)) ss =
           \<lparr>table = ss, sent = [(A, ''SESSION_UP''), (B, ''SESSION_UP'')], raised = None\<rparr>"
    by (simp add: onSession_def)
  with cp show ?thesis by simp
qed

theorem redeclaration_idempotent_witness:
  "handleEvent (SESSION 1 (Some ''a'') (Some ''b'') (Some ''k''))
     (run [SESSION 1 (Some ''a'') (Some ''b'') (Some ''k''),
           SESSION 2 (Some ''b'') (Some ''a'') (Some ''k'')] []) =
     \<lparr>table = run [SESSION 1 (Some ''a'') (Some ''b'') (Some ''k''),
                   SESSION 2 (Some ''b'') (Some ''a'') (Some ''k'')] [],
      sent = [(1, ''SESSION_UP''), (2, ''SESSION_UP'')], raised = None\<rparr> \<and>
   confirmedPair (table (handleEvent (SESSION 1 (Some ''a'') (Some ''b'') (Some ''k''))
     (run [SESSION 1 (Some ''a'') (Some ''b'') (Some ''k''),
           SESSION 2 (Some ''b'') (Some ''a'') (Some ''k'')] []))) 1 2 ''a'' ''b'' ''k''"
proof -
  have "confirmedPair
     (run [SESSION 1 (Some ''a'') (Some ''b'') (Some ''k''),
           SESSION 2 (Some ''b'') (Some ''a'') (Some ''k'')] []) 1 2 ''a'' ''b'' ''k''"
    by code_simp
  from redeclaration_idempotent [OF reachable_run [OF reachable.init] this]
  show ?thesis .
qed

text \<open>
  Claim C7. For every table and every connection \<open>c\<close>: when no record has \<open>c\<close> as its
  client connection, or the record the relay finds for \<open>c\<close> has different client and
  target keys or no target connection, a COMMAND from \<open>c\<close> sends nothing and leaves the
  table as it was. (When the keys are equal and the target socket is \<open>null\<close>, the handler
  stops with a TypeError before any send.)
\<close>

theorem dangling_relay_inert:
  assumes "recordOf c ss = None \<or>
           (\<exists>s. recordOf c ss = Some s \<and> (clientKey s \<noteq> targetKey s \<or> targetWS s = None))"
  shows "sent (handleEvent (COMMAND c command) ss) = [] \<and>
         table (handleEvent (COMMAND c command) ss) = ss"
  using assms by (rule relay_dropped)

theorem dangling_relay_inert_witness:
  "sent (handleEvent (COMMAND 1 ''ping'')
     [\<lparr>ID = 1, clientID = ''a'', targetID = ''b'', clientKey = Some ''k'', targetKey = None,
        clientWS = Some 1, targetWS = None\<rparr>]) = [] \<and>
   table (handleEvent (COMMAND 1 ''ping'')
     [\<lparr>ID = 1, clientID = ''a'', targetID = ''b'', clientKey = Some ''k'', targetKey = None,
        clientWS = Some 1, targetWS = None\<rparr>]) =
     [\<lparr>ID = 1, clientID = ''a'', targetID = ''b'', clientKey = Some ''k'', targetKey = None,
        clientWS = Some 1, targetWS = None\<rparr>]"
  using dangling_relay_inert [of 1
     "[\<lparr>ID = 1, clientID = ''a'', targetID = ''b'', clientKey = Some ''k'', targetKey = None,
        clientWS = Some 1, targetWS = None\<rparr>]" "''ping''"]
  by (simp add: recordOf_def)

text \<open>
  Claim C8. In every table reachable from the empty one by any sequence of events
  (declarations, relays, disconnects, other messages), no two records have the same ID:
  each connection identity owns at most one record.
\<close>

theorem one_record_per_connection:
  assumes "reachable ss"
  shows "distinct (map ID ss)"
  using reachable_wellFormed [OF assms] by (simp add: wellFormed_def)

theorem one_record_per_connection_witness:
  "distinct (map ID (run [SESSION 1 (Some ''a'') (Some ''b'') (Some ''k''),
                          SESSION 2 (Some ''b'') (Some ''a'') (Some ''k''),
                          COMMAND 1 ''ping'',
                          SESSION 1 (Some ''a'') (Some ''c'') (Some ''k''),
                          CLOSE 2] []))"
  using one_record_per_connection [OF reachable_run [OF reachable.init]] .

text \<open>
  Claim C9, amended. In a reachable table, when connection \<open>w\<close> declares \<open>(cid, tid)\<close> and
  a record with that pair is present, whichever connection owns it: the loop finds a
  forward record, at index \<open>c\<close>, and after the declaration the record at index \<open>c\<close> carries
  the pair and has the ID and the client socket of \<open>w\<close>; indeed every record with
  the declared pair then belongs to \<open>w\<close>. The declaration takes the forward record over,
  it does not require it to be its own.
\<close>

theorem forward_record_taken_over:
  assumes r: "reachable ss" and f: "f \<in> set ss" "isForward cid tid f"
  shows "(\<exists>c. fst (snd (locateRecords w cid tid 0 ss (None, None))) = Some c \<and>
            c < length (table (handleEvent (SESSION w (Some cid) (Some tid) (Some k)) ss)) \<and>
            isForward cid tid (table (handleEvent (SESSION w (Some cid) (Some tid) (Some k)) ss) ! c) \<and>
            ID (table (handleEvent (SESSION w (Some cid) (Some tid) (Some k)) ss) ! c) = w \<and>
            clientWS (table (handleEvent (SESSION w (Some cid) (Some tid) (Some k)) ss) ! c) = Some w) \<and>
         (\<forall>s\<in>set (table (handleEvent (SESSION w (Some cid) (Some tid) (Some k)) ss)).
            isForward cid tid s \<longrightarrow> ID s = w \<and> clientWS s = Some w)"
proof -
  let ?T = "table (handleEvent (SESSION w (Some cid) (Some tid) (Some k)) ss)"
  let ?ss1 = "cleanup w cid tid ss"
  from r have wf: "wellFormed ss" by (rule reachable_wellFormed)
  have tab: "?T = snd (updateSessionTable w (Some cid) (Some tid) (Some k) ss)"
    by (simp add: table_onSession)
  from wf have d: "distinct (map ID ss)" "distinct (map pairOf ss)" by (simp_all add: wellFormed_def)
  have loc: "fst (snd (locateRecords w cid tid 0 ss (None, None))) = findIndex (isForward cid tid) ?ss1"
    by (simp add: locateRecords_wf [OF d])
  from forward_survives_cleanup [OF wf f] have "findIndex (isForward cid tid) ?ss1 \<noteq> None"
    by (simp add: findIndex_None)
  then obtain c where c: "findIndex (isForward cid tid) ?ss1 = Some c" by blast
  from findIndex_Some [OF c] have cl: "c < length ?ss1" by simp
  have "\<exists>ro. c < length ?T \<and> ?T ! c = declared w cid tid k ro"
  proof (cases "findIndex (isReverse cid tid) ?ss1")
    case None
    with c cl have "c < length ?T \<and> ?T ! c = declared w cid tid k None"
      unfolding tab updateSessionTable_wf [OF wf] by simp
    then show ?thesis by blast
  next
    case (Some t)
    from forward_reverse_index_neq [OF c Some] have "c \<noteq> t" .
    with Some c cl have "c < length ?T \<and>
        ?T ! c = declared w cid tid k (Some (?ss1 ! t))"
      unfolding tab updateSessionTable_wf [OF wf] by simp
    then show ?thesis by blast
  qed
  then obtain ro where "c < length ?T" "?T ! c = declared w cid tid k ro" by blast
  then have 1: "\<exists>c. fst (snd (locateRecords w cid tid 0 ss (None, None))) = Some c \<and>
            c < length ?T \<and> isForward cid tid (?T ! c) \<and> ID (?T ! c) = w \<and> clientWS (?T ! c) = Some w"
    using loc c by (auto simp: declared_def isForward_def)
  have 2: "\<forall>s\<in>set ?T. isForward cid tid s \<longrightarrow> ID s = w \<and> clientWS s = Some w"
    unfolding tab using forward_in_result [OF wf] by blast
  from 1 2 show ?thesis by blast
qed

theorem forward_record_taken_over_witness:
  "ID (table (handleEvent (SESSION 2 (Some ''a'') (Some ''b'') (Some ''k2''))
         (run [SESSION 1 (Some ''a'') (Some ''b'') (Some ''k'')] [])) ! 0) = 2 \<and>
   clientWS (table (handleEvent (SESSION 2 (Some ''a'') (Some ''b'') (Some ''k2''))
         (run [SESSION 1 (Some ''a'') (Some ''b'') (Some ''k'')] [])) ! 0) = Some 2"
proof -
  have 1: "pendingRecord 1 ''a'' ''b'' ''k'' \<in> set (run [SESSION 1 (Some ''a'') (Some ''b'') (Some ''k'')] [])"
    by code_simp
  have 2: "isForward ''a'' ''b'' (pendingRecord 1 ''a'' ''b'' ''k'')"
    by (simp add: isForward_def pendingRecord_def)
  have 3: "fst (snd (locateRecords 2 ''a'' ''b'' 0
      (run [SESSION 1 (Some ''a'') (Some ''b'') (Some ''k'')] []) (None, None))) = Some 0"
    by code_simp
  from forward_record_taken_over [OF reachable_run [OF reachable.init] 1 2, of 2 "''k2''"] 3
  show ?thesis by auto
qed

text \<open>Claim C9 as stated fails: after connection 1 declared \<open>(a, b)\<close>, the forward
  record the loop finds for the same declaration of connection 2 is the record of
  connection 1.\<close>

theorem forward_record_counterexample:
  "reachable (run [SESSION 1 (Some ''a'') (Some ''b'') (Some ''k'')] []) \<and>
   fst (snd (locateRecords 2 ''a'' ''b'' 0
      (run [SESSION 1 (Some ''a'') (Some ''b'') (Some ''k'')] []) (None, None))) = Some 0 \<and>
   run [SESSION 1 (Some ''a'') (Some ''b'') (Some ''k'')] [] ! 0 = pendingRecord 1 ''a'' ''b'' ''k'' \<and>
   ID (pendingRecord 1 ''a'' ''b'' ''k'') \<noteq> 2"
proof -
  have "reachable (run [SESSION 1 (Some ''a'') (Some ''b'') (Some ''k'')] [])"
    by (rule reachable_run [OF reachable.init])
  moreover have "fst (snd (locateRecords 2 ''a'' ''b'' 0
      (run [SESSION 1 (Some ''a'') (Some ''b'') (Some ''k'')] []) (None, None))) = Some 0"
    by code_simp
  moreover have "run [SESSION 1 (Some ''a'') (Some ''b'') (Some ''k'')] [] ! 0 =
      pendingRecord 1 ''a'' ''b'' ''k''"
    by code_simp
  moreover have "ID (pendingRecord 1 ''a'' ''b'' ''k'') \<noteq> 2"
    by (simp add: pendingRecord_def)
  ultimately show ?thesis by blast
qed

text \<open>
  Claim C10. In every reachable table a record whose client key equals its target key has
  a target socket; so the relay lookup returns -1, -2 or a socket that is not \<open>null\<close>,
  and the relay handler never raises the TypeError of sending on \<open>null\<close>.
\<close>

theorem relay_target_never_null:
  assumes "reachable ss"
  shows "(\<forall>s\<in>set ss. clientKey s = targetKey s \<longrightarrow> targetWS s \<noteq> None) \<and>
         (getTargetWSFromSession w ss = Number (- 1) \<or>
          getTargetWSFromSession w ss = Number (- 2) \<or>
          (\<exists>p. getTargetWSFromSession w ss = Socket (Some p))) \<and>
         raised (handleEvent (COMMAND w command) ss) = None"
proof -
  from reachable_wellFormed [OF assms] have snd: "\<forall>s\<in>set ss. recordSound s"
    by (simp add: wellFormed_def)
  then have 1: "\<forall>s\<in>set ss. clientKey s = targetKey s \<longrightarrow> targetWS s \<noteq> None"
    by (auto simp: recordSound_def)
  have 2: "getTargetWSFromSession w ss = Number (- 1) \<or>
          getTargetWSFromSession w ss = Number (- 2) \<or>
          (\<exists>p. getTargetWSFromSession w ss = Socket (Some p))"
  proof (cases "recordOf w ss")
    case None
    then show ?thesis by (simp add: getTargetWSFromSession_recordOf)
  next
    case (Some s)
    then have "s \<in> set ss" by (auto simp: recordOf_def find_Some_iff)
    with 1 have "clientKey s = targetKey s \<longrightarrow> targetWS s \<noteq> None" by blast
    with Some show ?thesis by (auto simp: getTargetWSFromSession_recordOf)
  qed
  from 2 have 3: "raised (handleEvent (COMMAND w command) ss) = None"
    by (auto simp: processCommand_def)
  from 1 2 3 show ?thesis by blast
qed

theorem relay_target_never_null_witness:
  "getTargetWSFromSession 1
     (run [SESSION 1 (Some ''a'') (Some ''b'') (Some ''k''),
           SESSION 2 (Some ''b'') (Some ''a'') (Some ''k'')] []) = Socket (Some 2) \<and>
   raised (handleEvent (COMMAND 1 ''ping'')
     (run [SESSION 1 (Some ''a'') (Some ''b'') (Some ''k''),
           SESSION 2 (Some ''b'') (Some ''a'') (Some ''k'')] [])) = None"
proof -
  have "getTargetWSFromSession 1
     (run [SESSION 1 (Some ''a'') (Some ''b'') (Some ''k''),
           SESSION 2 (Some ''b'') (Some ''a'') (Some ''k'')] []) = Socket (Some 2)"
    by code_simp
  with relay_target_never_null [OF reachable_run [OF reachable.init],
      of "[SESSION 1 (Some ''a'') (Some ''b'') (Some ''k''),
           SESSION 2 (Some ''b'') (Some ''a'') (Some ''k'')]" 1 "''ping''"]
  show ?thesis by blast
qed

end
